theory Spec2Isabelle
  imports Main "HOL-Library.Multiset" "HOL-Library.Char_ord" "HOL-Library.List_Lexorder"
begin

section \<open>A single-machine MapReduce pipeline (main.cpp)\<close>

text \<open>
  The program splits one text file into byte ranges, maps every range in a worker thread,
  groups the mapped strings by value, deals the groups out to the reducers and lets every
  reducer write one output file. This theory embeds the five functions of
  \<^verbatim>\<open>main.cpp\<close> and the part of the C++ stream library they rely on.

  Conventions. \<^verbatim>\<open>std::string\<close> is \<^typ>\<open>string\<close>, compared bytewise as unsigned
  characters and ordered lexicographically (the instances of Char_ord and List_Lexorder),
  which is the order of \<^verbatim>\<open>std::less<std::string>\<close>. \<^verbatim>\<open>int\<close>, \<^verbatim>\<open>std::streamoff\<close> and
  \<^verbatim>\<open>std::streampos\<close> are \<^typ>\<open>int\<close>. A value of type \<^verbatim>\<open>int\<close> comes from
  \<^verbatim>\<open>std::atoi\<close>, whose result is cut to 32 bits below; the one place where the program
  computes past \<^verbatim>\<open>INT_MAX\<close>, the \<^verbatim>\<open>num_sections + 1\<close> of \<^verbatim>\<open>SplitFileIntoSections\<close>, is
  written out there. Memory is taken to suffice and threads to start (no
  \<^verbatim>\<open>std::bad_alloc\<close>, no \<^verbatim>\<open>std::system_error\<close>), and the file system changes during a
  run only through the reducers. A thrown
  exception is a value of type \<open>exn\<close>. Files are read as raw bytes, a line ends at the
  byte \<open>0x0A\<close>.
\<close>

subsection \<open>Exceptions\<close>

datatype exn = invalid_argument string | runtime_error string | length_error string

fun what :: "exn \<Rightarrow> string" where
  "what (invalid_argument m) = m"
| "what (runtime_error m) = m"
| "what (length_error m) = m"

definition INT_MAX :: int where
  "INT_MAX = 2147483647"

subsection \<open>The file system and \<^verbatim>\<open>std::ifstream\<close>\<close>

text \<open>
  \<open>files\<close> gives the bytes of every file that can be opened for reading; \<open>writable\<close>
  says whether \<^verbatim>\<open>std::ofstream\<close> can open (create or truncate) a name.
\<close>

record filesystem =
  files :: "string \<rightharpoonup> string"
  writable :: "string \<Rightarrow> bool"

text \<open>
  An input stream: the bytes of the file, the get position and the two state bits the
  program can observe. \<^verbatim>\<open>good()\<close> is: neither bit set.
\<close>

record ifstream =
  buf :: string
  gpos :: nat
  eofbit :: bool
  failbit :: bool

definition newline :: char where
  "newline = CHR 0x0A"

definition open_ifstream :: "filesystem \<Rightarrow> string \<Rightarrow> ifstream option" where
  "open_ifstream fs p =
     (case files fs p of
        None \<Rightarrow> None
      | Some bs \<Rightarrow> Some \<lparr>buf = bs, gpos = 0, eofbit = False, failbit = False\<rparr>)"

text \<open>
  \<^verbatim>\<open>seekg(pos)\<close> (C++11): clears eofbit, then constructs a sentry; the sentry of a stream
  that is not good sets failbit and nothing is done; otherwise the position is set, and
  a negative position fails (failbit). Seeking past the end is allowed.
\<close>

definition seekg :: "int \<Rightarrow> ifstream \<Rightarrow> ifstream" where
  "seekg p s =
     (let s1 = s\<lparr>eofbit := False\<rparr> in
      if failbit s1 then s1
      else if p < 0 then s1\<lparr>failbit := True\<rparr>
      else s1\<lparr>gpos := nat p\<rparr>)"

text \<open>\<^verbatim>\<open>seekg(off, std::ios::end)\<close>: the same, relative to the end of the file.\<close>

definition seekg_end :: "int \<Rightarrow> ifstream \<Rightarrow> ifstream" where
  "seekg_end off s = seekg (int (length (buf s)) + off) s"

text \<open>
  \<^verbatim>\<open>tellg()\<close> (C++11) is an unformatted input function: its sentry sets failbit when the
  stream is not good (eofbit alone is enough), and then the result is \<open>-1\<close>.
\<close>

definition tellg :: "ifstream \<Rightarrow> int \<times> ifstream" where
  "tellg s =
     (if eofbit s \<or> failbit s then (- 1, s\<lparr>failbit := True\<rparr>)
      else (int (gpos s), s))"

text \<open>
  \<^verbatim>\<open>std::getline(is, line)\<close>: the sentry of a stream that is not good sets failbit and
  the call fails. Otherwise bytes are extracted up to and including the next newline
  (which is not stored); running into the end of the file sets eofbit, and failbit too
  when nothing at all was extracted. The result is: whether the stream converts to
  true afterwards, the line read, and the stream.
\<close>

definition getline :: "ifstream \<Rightarrow> (bool \<times> string) \<times> ifstream" where
  "getline s =
     (if eofbit s \<or> failbit s then ((False, []), s\<lparr>failbit := True\<rparr>)
      else
        let rest = drop (gpos s) (buf s);
            line = takeWhile (\<lambda>c. c \<noteq> newline) rest
        in if length line < length rest
           then ((True, line), s\<lparr>gpos := gpos s + length line + 1\<rparr>)
           else ((line \<noteq> [], line),
                 s\<lparr>gpos := gpos s + length line, eofbit := True, failbit := (line = [])\<rparr>))"

subsection \<open>SplitFileIntoSections\<close>

text \<open>The lambda \<^verbatim>\<open>get_file_size\<close>: seek to the end, read the position, seek back.\<close>

definition get_file_size :: "ifstream \<Rightarrow> int \<times> ifstream" where
  "get_file_size s =
     (case tellg (seekg_end 0 s) of (file_size, s1) \<Rightarrow> (file_size, seekg 0 s1))"

text \<open>
  The loop \<^verbatim>\<open>for (auto i{ 1 }; i < num_sections; ++i)\<close>: seek to the target, read (and
  drop) one line, store the position. The stream and its state bits live across the
  iterations.

  Before the loop the vector of \<^verbatim>\<open>num_sections + 1\<close> positions is built. For
  \<^verbatim>\<open>num_sections = INT_MAX\<close> the sum overflows; it wraps to a negative \<^verbatim>\<open>int\<close>, which
  is a size beyond \<^verbatim>\<open>max_size()\<close> as a \<^verbatim>\<open>size_t\<close>, and the constructor throws
  \<^verbatim>\<open>std::length_error\<close>.
\<close>

function split_loop :: "int \<Rightarrow> int \<Rightarrow> int \<Rightarrow> ifstream \<Rightarrow> int list \<Rightarrow> int list" where
  "split_loop i num_sections section_size s positions =
     (if i < num_sections then
        (case getline (seekg (section_size * i) s) of
           (_, s1) \<Rightarrow>
             (case tellg s1 of
                (p, s2) \<Rightarrow>
                  split_loop (i + 1) num_sections section_size s2 (positions[nat i := p])))
      else positions)"
  by pat_completeness auto
termination
  by (relation "measure (\<lambda>(i, n, _). nat (n - i))") auto

declare split_loop.simps [simp del]

definition SplitFileIntoSections :: "filesystem \<Rightarrow> string \<Rightarrow> int \<Rightarrow> exn + int list" where
  "SplitFileIntoSections fs input_file_path num_sections =
     (if input_file_path = [] \<or> num_sections \<le> 0
      then Inl (invalid_argument ''Invalid argument'')
      else
        (case open_ifstream fs input_file_path of
           None \<Rightarrow> Inl (runtime_error ''Can't open file'')
         | Some input_file \<Rightarrow>
             (case get_file_size input_file of
                (file_size, s) \<Rightarrow>
                  if file_size \<le> 0 then Inl (runtime_error ''File is empty'')
                  else if INT_MAX < num_sections + 1
                  then Inl (length_error ''cannot create std::vector larger than max_size()'')
                  else
                    let section_size = file_size div num_sections;
                        positions = (replicate (nat (num_sections + 1)) 0)[0 := 0];
                        positions1 = split_loop 1 num_sections section_size s positions
                    in Inr (positions1[nat num_sections := file_size]))))"

subsection \<open>MapSection\<close>

text \<open>
  The loop \<^verbatim>\<open>while (input_file.tellg() < end_pos && std::getline(input_file, line))\<close>.
  It ends: a successful \<^verbatim>\<open>getline\<close> either moves the position forward inside the file or
  sets eofbit, after which the next \<^verbatim>\<open>getline\<close> fails.
\<close>

function MapSection_loop ::
  "(string \<Rightarrow> string list) \<Rightarrow> int \<Rightarrow> ifstream \<Rightarrow> string list \<Rightarrow> string list" where
  "MapSection_loop map_func end_pos s output_list =
     (case tellg s of
        (p, s1) \<Rightarrow>
          if p < end_pos then
            (case getline s1 of
               ((ok, line), s2) \<Rightarrow>
                 if ok then MapSection_loop map_func end_pos s2 (output_list @ map_func line)
                 else output_list)
          else output_list)"
  by pat_completeness auto
termination
  apply (relation "measure (\<lambda>(f, e, s, out).
          if eofbit s \<or> failbit s then 0 else Suc (length (buf s)) - gpos s)")
   apply simp
  apply (auto simp: tellg_def getline_def Let_def split: if_splits)
  subgoal for end_pos s
    by (cases "gpos s \<le> length (buf s)") auto
  done

declare MapSection_loop.simps [simp del]

text \<open>
  \<^verbatim>\<open>map_func\<close> is a \<^verbatim>\<open>std::function\<close>: \<open>None\<close> is the empty (unset) one. The output
  list is the reference parameter, returned extended.
\<close>

definition MapSection ::
  "filesystem \<Rightarrow> string \<Rightarrow> int \<Rightarrow> int \<Rightarrow> (string \<Rightarrow> string list) option \<Rightarrow> string list
     \<Rightarrow> exn + string list" where
  "MapSection fs input_file_path start_pos end_pos map_func output_list =
     (if input_file_path = [] \<or> map_func = None
      then Inl (invalid_argument ''Invalid argument'')
      else
        (case open_ifstream fs input_file_path of
           None \<Rightarrow> Inl (runtime_error ''Can't open file'')
         | Some input_file \<Rightarrow>
             Inr (MapSection_loop (the map_func) end_pos (seekg start_pos input_file)
                    output_list)))"

subsection \<open>Shuffle\<close>

text \<open>
  \<^verbatim>\<open>std::map<std::string, V>\<close> is the list of its entries in ascending key order.
  \<open>map_at k f d m\<close> is \<^verbatim>\<open>m[k]\<close> followed by an update \<open>f\<close> of the element the
  reference denotes: \<^verbatim>\<open>operator[]\<close> inserts the value-initialised element \<open>d\<close> when
  the key is absent.
\<close>

fun map_at :: "'k::linorder \<Rightarrow> ('v \<Rightarrow> 'v) \<Rightarrow> 'v \<Rightarrow> ('k \<times> 'v) list \<Rightarrow> ('k \<times> 'v) list" where
  "map_at k f d [] = [(k, f d)]"
| "map_at k f d ((k', v) # m) =
     (if k < k' then (k, f d) # (k', v) # m
      else if k = k' then (k', f v) # m
      else (k', v) # map_at k f d m)"

text \<open>The two nested loops with \<^verbatim>\<open>grouped_results[item].push_back(item)\<close>.\<close>

definition group_results :: "string list list \<Rightarrow> (string \<times> string list) list" where
  "group_results map_results =
     foldl (\<lambda>grouped resultList.
              foldl (\<lambda>g item. map_at item (\<lambda>l. l @ [item]) [] g) grouped resultList)
       [] map_results"

text \<open>
  The loop over the values of the map, in key order, with the counter \<open>i\<close>:
  \<^verbatim>\<open>shuffle_results[i % num_reducers].insert(end, group.begin(), group.end()); ++i\<close>.
\<close>

fun distribute :: "string list list \<Rightarrow> int \<Rightarrow> int \<Rightarrow> string list list \<Rightarrow> string list list" where
  "distribute [] i num_reducers shuffle_results = shuffle_results"
| "distribute (grp # groups) i num_reducers shuffle_results =
     distribute groups (i + 1) num_reducers
       (shuffle_results[nat (i mod num_reducers) :=
          shuffle_results ! nat (i mod num_reducers) @ grp])"

definition Shuffle :: "string list list \<Rightarrow> int \<Rightarrow> exn + string list list" where
  "Shuffle map_results num_reducers =
     (if map_results = [] \<or> num_reducers \<le> 0
      then Inl (invalid_argument ''Invalid argument'')
      else Inr (distribute (map snd (group_results map_results)) 0 num_reducers
                  (replicate (nat num_reducers) [])))"

subsection \<open>ReduceContainer\<close>

text \<open>
  The result is the exception thrown, if any, and the file system afterwards.
  \<^verbatim>\<open>std::ofstream output_file(name)\<close> truncates or creates the file; every item is
  written followed by \<^verbatim>\<open>std::endl\<close>. The program does not test the stream after a
  write, and the model takes the writes to an open file to succeed.
\<close>

definition write_lines :: "string list \<Rightarrow> string" where
  "write_lines items = concat (map (\<lambda>item. item @ [newline]) items)"

definition ReduceContainer ::
  "filesystem \<Rightarrow> string list \<Rightarrow> (string list \<Rightarrow> string list) option \<Rightarrow> string
     \<Rightarrow> exn option \<times> filesystem" where
  "ReduceContainer fs input_list reduce_func output_file_name =
     (if input_list = [] \<or> reduce_func = None \<or> output_file_name = []
      then (Some (invalid_argument ''Invalid argument''), fs)
      else
        let reduced = the reduce_func input_list
        in if \<not> writable fs output_file_name
           then (Some (runtime_error ''Can't open file''), fs)
           else (None, fs\<lparr>files := (files fs)(output_file_name \<mapsto> write_lines reduced)\<rparr>))"

subsection \<open>main\<close>

text \<open>
  \<^verbatim>\<open>std::atoi(str)\<close> is \<^verbatim>\<open>(int) std::strtol(str, nullptr, 10)\<close>. \<^verbatim>\<open>strtol\<close> skips white
  space, reads an optional sign and the decimal digits that follow (no digits give 0),
  and answers \<^verbatim>\<open>LONG_MAX\<close> or \<^verbatim>\<open>LONG_MIN\<close> for a number out of the range of the 64-bit
  \<^verbatim>\<open>long\<close>. The conversion to \<^verbatim>\<open>int\<close> keeps the low 32 bits, read as two's complement.
  (The C standard leaves the out-of-range case open; this is what glibc does.)
\<close>

definition isspace :: "char \<Rightarrow> bool" where
  "isspace c = (c \<in> set [CHR '' '', CHR 0x09, CHR 0x0A, CHR 0x0B, CHR 0x0C, CHR 0x0D])"

definition isdigit :: "char \<Rightarrow> bool" where
  "isdigit c = (48 \<le> (of_char c :: nat) \<and> (of_char c :: nat) \<le> 57)"

fun atoi_digits :: "int \<Rightarrow> string \<Rightarrow> int" where
  "atoi_digits acc [] = acc"
| "atoi_digits acc (c # cs) =
     (if isdigit c then atoi_digits (acc * 10 + (int (of_char c) - 48)) cs else acc)"

definition strtol :: "string \<Rightarrow> int" where
  "strtol str =
     (let v = (case dropWhile isspace str of
                 [] \<Rightarrow> 0
               | c # cs \<Rightarrow>
                   if c = CHR ''-'' then - atoi_digits 0 cs
                   else if c = CHR ''+'' then atoi_digits 0 cs
                   else atoi_digits 0 (c # cs))
      in max (- 9223372036854775808) (min 9223372036854775807 v))"

definition int_of_long :: "int \<Rightarrow> int" where
  "int_of_long v = (v + 2147483648) mod 4294967296 - 2147483648"

definition atoi :: "string \<Rightarrow> int" where
  "atoi str = int_of_long (strtol str)"

text \<open>\<^verbatim>\<open>std::to_string\<close> of an \<^verbatim>\<open>int\<close>: the decimal digits, with a minus sign if negative.\<close>

fun to_string_nat :: "nat \<Rightarrow> string" where
  "to_string_nat n =
     (if n < 10 then [char_of (48 + n)]
      else to_string_nat (n div 10) @ [char_of (48 + n mod 10)])"

declare to_string_nat.simps [simp del]

definition to_string :: "int \<Rightarrow> string" where
  "to_string i = (if i < 0 then CHR ''-'' # to_string_nat (nat (- i)) else to_string_nat (nat i))"

definition output_file_name :: "int \<Rightarrow> string" where
  "output_file_name i = ''output_'' @ to_string i @ ''.txt''"

text \<open>The two lambdas of \<^verbatim>\<open>main\<close>.\<close>

definition map_func :: "string \<Rightarrow> string list" where
  "map_func line = [line]"

definition reduce_func :: "string list \<Rightarrow> string list" where
  "reduce_func list = list"

text \<open>
  Worker threads. Every mapper thread runs \<^verbatim>\<open>MapSection\<close> on its own stream and appends
  to its own slot \<^verbatim>\<open>map_results[i]\<close>; every reducer thread runs \<^verbatim>\<open>ReduceContainer\<close> on
  its own bucket and writes its own file. The threads share nothing else, so a run of a
  phase is given by the order in which the workers take effect: a schedule, a list of
  worker indices. An exception that leaves a worker thread is not caught anywhere: the
  C++ runtime calls \<^verbatim>\<open>std::terminate\<close> and the process is aborted. \<open>Inl\<close> is that
  outcome, with the exception of the first worker of the schedule that throws; for the
  reducers it also lists the workers that had finished before, which are the ones whose
  output file is fully written.
\<close>

fun mapping_phase ::
  "filesystem \<Rightarrow> string \<Rightarrow> int list \<Rightarrow> nat list \<Rightarrow> string list list \<Rightarrow> exn + string list list" where
  "mapping_phase fs file_path section_start_positions [] map_results = Inr map_results"
| "mapping_phase fs file_path section_start_positions (i # schedule) map_results =
     (case MapSection fs file_path (section_start_positions ! i)
             (section_start_positions ! (i + 1)) (Some map_func) (map_results ! i) of
        Inl e \<Rightarrow> Inl e
      | Inr output_list \<Rightarrow>
          mapping_phase fs file_path section_start_positions schedule
            (map_results[i := output_list]))"

fun reducing_phase ::
  "filesystem \<Rightarrow> string list list \<Rightarrow> nat list \<Rightarrow> (exn \<times> nat list) + filesystem" where
  "reducing_phase fs shuffle_results [] = Inr fs"
| "reducing_phase fs shuffle_results (i # schedule) =
     (case ReduceContainer fs (shuffle_results ! i) (Some reduce_func)
             (output_file_name (int i)) of
        (Some e, _) \<Rightarrow> Inl (e, [])
      | (None, fs') \<Rightarrow>
          (case reducing_phase fs' shuffle_results schedule of
             Inl (e, finished) \<Rightarrow> Inl (e, i # finished)
           | Inr fs'' \<Rightarrow> Inr fs''))"

text \<open>
  What a run of \<^verbatim>\<open>main\<close> leaves behind. \<open>Returned\<close>: \<^verbatim>\<open>main\<close> returned, with its
  return value, what it wrote to standard output and standard error, the number of
  worker threads it had started, and the file system. \<open>Terminated\<close>: a worker thread
  threw and the process was aborted by \<^verbatim>\<open>std::terminate\<close>; it carries the exception
  and the reducers that had finished by then (none if a mapper threw).
\<close>

record completed =
  exit_status :: int
  cout :: string
  cerr :: string
  spawned :: nat
  disk :: filesystem

datatype run = Returned completed | Terminated exn "nat list"

text \<open>The handler \<^verbatim>\<open>catch (const std::exception& ex)\<close>, followed by \<^verbatim>\<open>return 0\<close>.\<close>

definition caught :: "exn \<Rightarrow> nat \<Rightarrow> filesystem \<Rightarrow> run" where
  "caught ex n fs =
     Returned \<lparr>exit_status = 0, cout = [], cerr = what ex @ [newline], spawned = n, disk = fs\<rparr>"

text \<open>
  \<open>argv\<close> holds the \<open>argc\<close> arguments, the program name first (at least that one).
  \<open>mappers\<close> and \<open>reducers\<close> are the schedules of the two phases: permutations of
  \<open>[0..<mnum]\<close> and \<open>[0..<rnum]\<close>.
\<close>

definition main :: "filesystem \<Rightarrow> string list \<Rightarrow> nat list \<Rightarrow> nat list \<Rightarrow> run" where
  "main fs argv mappers reducers =
     (if length argv \<noteq> 4
      then Returned \<lparr>exit_status = - 1,
                     cout = ''Usage: '' @ hd argv @ '' <src> <mnum> <runm>'' @ [newline],
                     cerr = [], spawned = 0, disk = fs\<rparr>
      else
        let file_path = argv ! 1;
            mnum = atoi (argv ! 2);
            rnum = atoi (argv ! 3)
        in case SplitFileIntoSections fs file_path mnum of
             Inl ex \<Rightarrow> caught ex 0 fs
           | Inr section_start_positions \<Rightarrow>
               (case mapping_phase fs file_path section_start_positions mappers
                       (replicate (nat mnum) []) of
                  Inl e \<Rightarrow> Terminated e []
                | Inr map_results \<Rightarrow>
                    (case Shuffle map_results rnum of
                       Inl ex \<Rightarrow> caught ex (nat mnum) fs
                     | Inr shuffle_results \<Rightarrow>
                         (case reducing_phase fs shuffle_results reducers of
                            Inl (e, finished) \<Rightarrow> Terminated e finished
                          | Inr fs' \<Rightarrow>
                              Returned \<lparr>exit_status = 0, cout = [], cerr = [],
                                        spawned = nat mnum + nat rnum, disk = fs'\<rparr>))))"

section \<open>Notions of the specification\<close>

text \<open>
  The specification speaks of the distinct keys in ascending order, of the occurrences
  of a key, and of dealing the keys out round-robin. These definitions follow its words;
  the theorems below compare them with the code.
\<close>

text \<open>The distinct keys, ascending.\<close>

definition keys_of :: "string list \<Rightarrow> string list" where
  "keys_of items = sort (remdups items)"

text \<open>All occurrences of a key among the mapped items, in emission order.\<close>

definition occurrences :: "string \<Rightarrow> string list \<Rightarrow> string list" where
  "occurrences k items = filter (\<lambda>x. x = k) items"

text \<open>
  Bucket \<open>j\<close> of \<open>r\<close>: the occurrences of the keys whose number \<open>c\<close> in the
  ascending enumeration has \<open>c mod r = j\<close>, key after key.
\<close>

definition shuffle_spec :: "string list \<Rightarrow> nat \<Rightarrow> string list list" where
  "shuffle_spec items r =
     map (\<lambda>j. concat (map (\<lambda>(c, k). occurrences k items)
                        (filter (\<lambda>(c, k). c mod r = j) (enumerate 0 (keys_of items)))))
       [0..<r]"

text \<open>
  The lines of a file: the byte strings between newlines; bytes after the last newline
  are a line of their own when there are any. This is what reading the whole file with
  \<^verbatim>\<open>std::getline\<close> yields.
\<close>

fun lines_acc :: "string \<Rightarrow> string \<Rightarrow> string list" where
  "lines_acc cur [] = (if cur = [] then [] else [cur])"
| "lines_acc cur (c # cs) =
     (if c = newline then cur # lines_acc [] cs else lines_acc (cur @ [c]) cs)"

definition file_lines :: "string \<Rightarrow> string list" where
  "file_lines bs = lines_acc [] bs"

text \<open>The offset just after the first newline at or after offset \<open>t\<close>.\<close>

definition next_line_start :: "string \<Rightarrow> nat \<Rightarrow> nat" where
  "next_line_start bs t = t + length (takeWhile (\<lambda>c. c \<noteq> newline) (drop t bs)) + 1"

text \<open>
  The boundaries the specification describes for \<open>n\<close> sections: 0, then for
  \<open>i = 1, \<dots>, n - 1\<close> the start of the line after the target offset
  \<open>i * (size div n)\<close>, then the size of the file.
\<close>

definition section_boundaries :: "string \<Rightarrow> nat \<Rightarrow> nat list" where
  "section_boundaries bs n =
     0 # map (\<lambda>i. next_line_start bs (i * (length bs div n))) [1..<n] @ [length bs]"

text \<open>The number a string of decimal digits denotes (to read \<^verbatim>\<open>std::to_string\<close> back).\<close>

definition digits_value :: "string \<Rightarrow> nat" where
  "digits_value ds = foldl (\<lambda>a c. a * 10 + (of_char c - 48)) 0 ds"

text \<open>
  For the concrete runs below: a file system that holds one readable file and lets
  every name be opened for writing.
\<close>

definition single_file :: "string \<Rightarrow> string \<Rightarrow> filesystem" where
  "single_file p bs = \<lparr>files = [p \<mapsto> bs], writable = (\<lambda>_. True)\<rparr>"

section \<open>Shuffle: grouping and round-robin distribution\<close>

lemma map_at_sorted:
  "sorted ks \<Longrightarrow> distinct ks \<Longrightarrow>
   map_at x f d (map (\<lambda>k. (k, g k)) ks) =
   map (\<lambda>k. (k, if k = x then f (if x \<in> set ks then g x else d) else g k))
     (if x \<in> set ks then ks else insort x ks)"
proof (induction ks)
  case Nil
  then show ?case by simp
next
  case (Cons a ks)
  then show ?case by (auto simp: not_less dest: antisym)
qed

lemma foldl_concat_nested: "foldl (\<lambda>a xs. foldl f a xs) a xss = foldl f a (concat xss)"
  by (induction xss arbitrary: a) auto

lemma group_items:
  "foldl (\<lambda>g item. map_at item (\<lambda>l. l @ [item]) [] g) [] items =
   map (\<lambda>k. (k, occurrences k items)) (keys_of items)"
proof (induction items rule: rev_induct)
  case Nil
  then show ?case by (simp add: keys_of_def)
next
  case (snoc x xs)
  have ks: "keys_of xs = sorted_list_of_set (set xs)"
    by (simp add: keys_of_def sorted_list_of_set_sort_remdups)
  have ks': "keys_of (xs @ [x]) = (if x \<in> set xs then keys_of xs else insort x (keys_of xs))"
  proof (cases "x \<in> set xs")
    case True
    then have "set (xs @ [x]) = set xs" by auto
    then have "sorted_list_of_set (set (xs @ [x])) = sorted_list_of_set (set xs)" by (rule arg_cong)
    with True show ?thesis
      by (simp only: keys_of_def sorted_list_of_set_sort_remdups[symmetric] if_True)
  next
    case False
    have "sorted_list_of_set (set (xs @ [x])) = sorted_list_of_set (insert x (set xs))" by simp
    also have "\<dots> = insort x (sorted_list_of_set (set xs))"
      using False by (simp del: sorted_list_of_set_insert_remove)
    finally show ?thesis using False
      by (simp only: keys_of_def sorted_list_of_set_sort_remdups[symmetric] if_False)
  qed
  have sd: "sorted (keys_of xs)" "distinct (keys_of xs)" "set (keys_of xs) = set xs"
    by (simp_all add: ks)
  have "foldl (\<lambda>g item. map_at item (\<lambda>l. l @ [item]) [] g) [] (xs @ [x]) =
        map_at x (\<lambda>l. l @ [x]) [] (map (\<lambda>k. (k, occurrences k xs)) (keys_of xs))"
    by (simp add: snoc.IH)
  also have "\<dots> = map (\<lambda>k. (k, if k = x then (if x \<in> set (keys_of xs) then occurrences x xs else []) @ [x]
                                  else occurrences k xs))
                     (if x \<in> set (keys_of xs) then keys_of xs else insort x (keys_of xs))"
    by (rule map_at_sorted[OF sd(1,2)])
  also have "\<dots> = map (\<lambda>k. (k, occurrences k (xs @ [x]))) (keys_of (xs @ [x]))"
    unfolding ks' sd(3)
    by (auto simp: occurrences_def filter_empty_conv)
  finally show ?case .
qed

lemma group_results_eq:
  "group_results map_results =
   map (\<lambda>k. (k, occurrences k (concat map_results))) (keys_of (concat map_results))"
  unfolding group_results_def foldl_concat_nested by (rule group_items)


lemma distribute_eq:
  assumes "0 < r" "length res = nat r"
  shows "distribute gs (int i) r res =
         map (\<lambda>j. res ! j @ concat (map snd (filter (\<lambda>(c, g). c mod nat r = j) (enumerate i gs))))
           [0..<nat r]"
  using assms(2)
proof (induction gs arbitrary: i res)
  case Nil
  have "map ((!) res) [0..<length res] = res" by (rule map_nth)
  with Nil show ?case by simp
next
  case (Cons g gs)
  have j0: "nat (int i mod r) = i mod nat r"
    using assms(1) by (simp add: nat_mod_distrib)
  have lt: "i mod nat r < nat r" using assms(1) by simp
  let ?res = "res[i mod nat r := res ! (i mod nat r) @ g]"
  have "distribute (g # gs) (int i) r res = distribute gs (int (Suc i)) r ?res"
    by (simp add: j0 add.commute)
  also have "\<dots> = map (\<lambda>j. ?res ! j @ concat (map snd (filter (\<lambda>(c, g). c mod nat r = j) (enumerate (Suc i) gs))))
           [0..<nat r]"
    by (rule Cons.IH) (simp add: Cons.prems)
  also have "\<dots> = map (\<lambda>j. res ! j @ concat (map snd (filter (\<lambda>(c, g). c mod nat r = j) (enumerate i (g # gs)))))
           [0..<nat r]"
    using lt Cons.prems by (auto simp: nth_list_update)
  finally show ?case .
qed

lemma enumerate_map: "enumerate n (map f xs) = map (\<lambda>(c, x). (c, f x)) (enumerate n xs)"
  by (induction xs arbitrary: n) auto

lemma Shuffle_eq_spec:
  assumes "map_results \<noteq> []" "0 < r"
  shows "Shuffle map_results r = Inr (shuffle_spec (concat map_results) (nat r))"
proof -
  let ?gs = "map snd (group_results map_results)"
  have "distribute ?gs 0 r (replicate (nat r) []) =
        map (\<lambda>j. replicate (nat r) [] ! j @
                concat (map snd (filter (\<lambda>(c, g). c mod nat r = j) (enumerate 0 ?gs))))
          [0..<nat r]"
    using distribute_eq[of r "replicate (nat r) []" ?gs 0] assms(2) by simp
  also have "\<dots> = shuffle_spec (concat map_results) (nat r)"
    by (simp add: group_results_eq shuffle_spec_def comp_def enumerate_map
        filter_map case_prod_unfold cong: map_cong)
  finally show ?thesis
    using assms by (simp add: Shuffle_def)
qed


lemma mset_concat_update:
  "j < length xss \<Longrightarrow> mset (concat (xss[j := xss ! j @ g])) = mset (concat xss) + mset g"
  by (induction xss arbitrary: j) (auto split: nat.splits)

lemma mset_concat_distribute:
  assumes "0 < r" "length res = nat r"
  shows "mset (concat (distribute gs i r res)) = mset (concat res) + mset (concat gs)"
  using assms(2)
proof (induction gs arbitrary: i res)
  case Nil
  then show ?case by simp
next
  case (Cons g gs)
  have "nat (i mod r) < length res"
    using assms(1) Cons.prems by (simp add: nat_less_iff)
  then show ?case using Cons by (simp add: mset_concat_update)
qed

lemma mset_concat_occurrences:
  "distinct ks \<Longrightarrow>
   mset (concat (map (\<lambda>k. occurrences k items) ks)) = mset (filter (\<lambda>x. x \<in> set ks) items)"
proof (induction ks)
  case Nil
  then show ?case by simp
next
  case (Cons k ks)
  have "mset (filter (\<lambda>x. x = k) items) + mset (filter (\<lambda>x. x \<in> set ks) items) =
        mset (filter (\<lambda>x. x = k \<or> x \<in> set ks) items)"
    using Cons.prems by (induction items) auto
  with Cons show ?case by (simp add: occurrences_def)
qed

lemma keys_of_props:
  "sorted (keys_of items)" "distinct (keys_of items)" "set (keys_of items) = set items"
  by (simp_all add: keys_of_def)

lemma mset_concat_groups:
  "mset (concat (map snd (group_results map_results))) = mset (concat map_results)"
  by (simp add: group_results_eq comp_def mset_concat_occurrences keys_of_props)

lemma Shuffle_mset:
  assumes "Shuffle map_results r = Inr buckets"
  shows "mset (concat buckets) = mset (concat map_results)"
proof -
  from assms have r: "0 < r"
    and b: "buckets = distribute (map snd (group_results map_results)) 0 r (replicate (nat r) [])"
    by (auto simp: Shuffle_def split: if_splits)
  show ?thesis unfolding b
    by (simp add: mset_concat_distribute[OF r] mset_concat_groups)
qed

lemma in_shuffle_spec:
  assumes "j < r" "x \<in> set (shuffle_spec items r ! j)"
  shows "\<exists>c < length (keys_of items). keys_of items ! c = x \<and> c mod r = j"
  using assms
  by (auto simp: shuffle_spec_def occurrences_def in_set_enumerate_eq)

lemma shuffle_spec_disjoint:
  assumes "i < r" "j < r" "x \<in> set (shuffle_spec items r ! i)" "x \<in> set (shuffle_spec items r ! j)"
  shows "i = j"
proof -
  from in_shuffle_spec[OF assms(1,3)] obtain c where
    c: "c < length (keys_of items)" "keys_of items ! c = x" "c mod r = i" by blast
  from in_shuffle_spec[OF assms(2,4)] obtain d where
    d: "d < length (keys_of items)" "keys_of items ! d = x" "d mod r = j" by blast
  from c(1,2) d(1,2) have "c = d"
    using nth_eq_iff_index_eq[OF keys_of_props(2), of c items d] by simp
  with c(3) d(3) show ?thesis by simp
qed

lemma count_concat_single:
  assumes "j < length bs" "\<forall>i < length bs. i \<noteq> j \<longrightarrow> x \<notin> set (bs ! i)"
  shows "count (mset (concat bs)) x = count (mset (bs ! j)) x"
proof -
  have z: "\<And>cs. (\<forall>b \<in> set cs. x \<notin> set b) \<Longrightarrow> count (mset (concat cs)) x = 0"
    by (metis count_eq_zero_iff set_concat set_mset_mset UN_iff)
  have split: "bs = take j bs @ bs ! j # drop (Suc j) bs"
    using assms(1) by (simp add: id_take_nth_drop)
  have t: "\<forall>b \<in> set (take j bs). x \<notin> set b"
  proof
    fix b assume "b \<in> set (take j bs)"
    then obtain i where "i < length (take j bs)" "take j bs ! i = b"
      by (auto simp only: in_set_conv_nth)
    then have "i < length bs" "i \<noteq> j" "bs ! i = b" by simp_all
    with assms(2) show "x \<notin> set b" by blast
  qed
  have d: "\<forall>b \<in> set (drop (Suc j) bs). x \<notin> set b"
  proof
    fix b assume "b \<in> set (drop (Suc j) bs)"
    then obtain i where "i < length (drop (Suc j) bs)" "drop (Suc j) bs ! i = b"
      by (auto simp only: in_set_conv_nth)
    then have "Suc j + i < length bs" "Suc j + i \<noteq> j" "bs ! (Suc j + i) = b" by simp_all
    with assms(2) show "x \<notin> set b" by blast
  qed
  have "count (mset (concat bs)) x =
        count (mset (concat (take j bs))) x + count (mset (bs ! j)) x
          + count (mset (concat (drop (Suc j) bs))) x"
    by (subst split) simp
  then show ?thesis by (simp add: z[OF t] z[OF d])
qed


text \<open>
  Claim C1. A successful \<^verbatim>\<open>Shuffle\<close> with \<open>r > 0\<close> reducers returns \<open>r\<close> buckets that
  partition the mapped items: the multiset of all bucket entries is the multiset of all
  mapper outputs, no key occurs in two buckets, so for every key one bucket holds all its
  occurrences, and the bucket sizes add up to the mapper output sizes.
\<close>

theorem Shuffle_partition:
  assumes "0 < r" and "Shuffle map_results r = Inr buckets"
  shows "length buckets = nat r \<and>
         mset (concat buckets) = mset (concat map_results) \<and>
         (\<forall>i<length buckets. \<forall>j<length buckets. \<forall>x.
            x \<in> set (buckets ! i) \<and> x \<in> set (buckets ! j) \<longrightarrow> i = j) \<and>
         (\<forall>x\<in>set (concat map_results). \<exists>j<length buckets.
            count (mset (buckets ! j)) x = count (mset (concat map_results)) x) \<and>
         sum_list (map length buckets) = sum_list (map length map_results)"
proof -
  from assms(2) have ne: "map_results \<noteq> []"
    by (auto simp: Shuffle_def split: if_splits)
  from assms(2) Shuffle_eq_spec[OF ne assms(1)]
  have b: "buckets = shuffle_spec (concat map_results) (nat r)" by simp
  have len: "length buckets = nat r" by (simp add: b shuffle_spec_def)
  have ms: "mset (concat buckets) = mset (concat map_results)"
    by (rule Shuffle_mset[OF assms(2)])
  have dis: "\<forall>i<length buckets. \<forall>j<length buckets. \<forall>x.
            x \<in> set (buckets ! i) \<and> x \<in> set (buckets ! j) \<longrightarrow> i = j"
    unfolding len unfolding b by (blast intro: shuffle_spec_disjoint)
  have one: "\<forall>x\<in>set (concat map_results). \<exists>j<length buckets.
            count (mset (buckets ! j)) x = count (mset (concat map_results)) x"
  proof
    fix x assume "x \<in> set (concat map_results)"
    then have "x \<in> set (concat buckets)"
      by (metis ms set_mset_mset)
    then obtain b where "b \<in> set buckets" "x \<in> set b" by auto
    then obtain j where j: "j < length buckets" "x \<in> set (buckets ! j)"
      by (metis in_set_conv_nth)
    with dis have "\<forall>i < length buckets. i \<noteq> j \<longrightarrow> x \<notin> set (buckets ! i)" by blast
    from count_concat_single[OF j(1) this] ms j(1)
    show "\<exists>j<length buckets. count (mset (buckets ! j)) x = count (mset (concat map_results)) x"
      by auto
  qed
  have "length (concat buckets) = length (concat map_results)"
    by (metis ms size_mset)
  then have sz: "sum_list (map length buckets) = sum_list (map length map_results)"
    by (simp add: length_concat)
  from len ms dis one sz show ?thesis by blast
qed

theorem Shuffle_partition_witness:
  "(0::int) < 2 \<and>
   Shuffle [[''a'', ''b''], [''a'', ''c'']] 2 = Inr [[''a'', ''a'', ''c''], [''b'']] \<and>
   mset (concat [[''a'', ''a'', ''c''], [''b'']]) = mset (concat [[''a'', ''b''], [''a'', ''c'']]) \<and>
   sum_list (map length [[''a'', ''a'', ''c''], [''b'']]) =
     sum_list (map length [[''a'', ''b''], [''a'', ''c'']])"
proof -
  have r: "(0::int) < 2" by simp
  have h: "Shuffle [[''a'', ''b''], [''a'', ''c'']] 2 = Inr [[''a'', ''a'', ''c''], [''b'']]"
    by code_simp
  from Shuffle_partition[OF r h] r h show ?thesis by blast
qed

text \<open>
  Claim C2. \<^verbatim>\<open>Shuffle\<close> groups the items by equality and keeps every occurrence, the
  groups stand in ascending key order, and the group of the \<open>c\<close>-th distinct key goes to
  bucket \<open>c mod r\<close> as a whole (the counter counts keys, not occurrences). For the items
  a, b, a, c and two reducers, bucket 0 is a, a, c and bucket 1 is b.
\<close>

theorem Shuffle_round_robin:
  assumes "map_results \<noteq> []" and "0 < r"
  shows "group_results map_results =
           map (\<lambda>k. (k, occurrences k (concat map_results))) (keys_of (concat map_results)) \<and>
         Shuffle map_results r = Inr (shuffle_spec (concat map_results) (nat r)) \<and>
         Shuffle [[''a'', ''b'', ''a'', ''c'']] 2 = Inr [[''a'', ''a'', ''c''], [''b'']]"
proof -
  have "Shuffle [[''a'', ''b'', ''a'', ''c'']] 2 = Inr [[''a'', ''a'', ''c''], [''b'']]"
    by code_simp
  with group_results_eq Shuffle_eq_spec[OF assms] show ?thesis by simp
qed

theorem Shuffle_round_robin_witness:
  "[[''a'', ''b''], [''a'', ''c'']] \<noteq> [] \<and> (0::int) < 2 \<and>
   keys_of (concat [[''a'', ''b''], [''a'', ''c'']]) = [''a'', ''b'', ''c''] \<and>
   group_results [[''a'', ''b''], [''a'', ''c'']] =
     [(''a'', [''a'', ''a'']), (''b'', [''b'']), (''c'', [''c''])] \<and>
   Shuffle [[''a'', ''b''], [''a'', ''c'']] 2 = Inr [[''a'', ''a'', ''c''], [''b'']]"
proof -
  have ne: "[[''a'', ''b''], [''a'', ''c'']] \<noteq> ([] :: string list list)" by simp
  have r: "(0::int) < 2" by simp
  have k: "keys_of (concat [[''a'', ''b''], [''a'', ''c'']]) = [''a'', ''b'', ''c'']"
    by code_simp
  have s: "shuffle_spec (concat [[''a'', ''b''], [''a'', ''c'']]) (nat 2) =
           [[''a'', ''a'', ''c''], [''b'']]"
    by code_simp
  have o: "map (\<lambda>k. (k, occurrences k (concat [[''a'', ''b''], [''a'', ''c'']]))) [''a'', ''b'', ''c'']
        = [(''a'', [''a'', ''a'']), (''b'', [''b'']), (''c'', [''c''])]"
    by code_simp
  from Shuffle_round_robin[OF ne r] show ?thesis
    unfolding k s o using r by simp
qed


section \<open>ReduceContainer: argument validation\<close>

text \<open>
  Claim C9. \<^verbatim>\<open>ReduceContainer\<close> throws \<^verbatim>\<open>std::invalid_argument\<close> exactly when the bucket is
  empty, the reduce function is unset or the output name is empty, and then the file
  system is as it was: nothing has been created or written. (The reduce function is a
  total function here: it does not throw itself.)
\<close>

theorem ReduceContainer_invalid_argument:
  "((\<exists>m. fst (ReduceContainer fs input_list rf name) = Some (invalid_argument m))
      \<longleftrightarrow> input_list = [] \<or> rf = None \<or> name = []) \<and>
   (\<forall>m. fst (ReduceContainer fs input_list rf name) = Some (invalid_argument m)
      \<longrightarrow> m = ''Invalid argument'' \<and> snd (ReduceContainer fs input_list rf name) = fs)"
  by (auto simp: ReduceContainer_def Let_def)

theorem ReduceContainer_invalid_argument_witness:
  "fst (ReduceContainer \<lparr>files = Map.empty, writable = (\<lambda>_. True)\<rparr> [] (Some reduce_func)
         ''output_0.txt'') = Some (invalid_argument ''Invalid argument'') \<and>
   snd (ReduceContainer \<lparr>files = Map.empty, writable = (\<lambda>_. True)\<rparr> [] (Some reduce_func)
         ''output_0.txt'') = \<lparr>files = Map.empty, writable = (\<lambda>_. True)\<rparr>"
proof -
  have h: "fst (ReduceContainer \<lparr>files = Map.empty, writable = (\<lambda>_. True)\<rparr> [] (Some reduce_func)
         ''output_0.txt'') = Some (invalid_argument ''Invalid argument'')"
    by (simp add: ReduceContainer_def)
  from ReduceContainer_invalid_argument[of "\<lparr>files = Map.empty, writable = (\<lambda>_. True)\<rparr>" "[]"
      "Some reduce_func" "''output_0.txt''"] h
  show ?thesis by blast
qed

section \<open>main: errors and the exit status\<close>

lemma get_file_size_open:
  "get_file_size \<lparr>buf = bs, gpos = 0, eofbit = False, failbit = False\<rparr> =
     (int (length bs), \<lparr>buf = bs, gpos = 0, eofbit = False, failbit = False\<rparr>)"
  by (simp add: get_file_size_def seekg_end_def seekg_def tellg_def)

lemma SplitFileIntoSections_errors:
  "SplitFileIntoSections fs p n =
     (if p = [] \<or> n \<le> 0 then Inl (invalid_argument ''Invalid argument'')
      else case files fs p of
             None \<Rightarrow> Inl (runtime_error ''Can't open file'')
           | Some bs \<Rightarrow>
               if bs = [] then Inl (runtime_error ''File is empty'')
               else if INT_MAX < n + 1
               then Inl (length_error ''cannot create std::vector larger than max_size()'')
               else Inr ((split_loop 1 n (int (length bs) div n)
                            \<lparr>buf = bs, gpos = 0, eofbit = False, failbit = False\<rparr>
                            ((replicate (nat (n + 1)) 0)[0 := 0]))[nat n := int (length bs)]))"
  by (simp add: SplitFileIntoSections_def open_ifstream_def get_file_size_open Let_def
      split: option.splits)

lemma SplitFileIntoSections_InrD:
  "SplitFileIntoSections fs p n = Inr ps \<Longrightarrow>
   p \<noteq> [] \<and> 0 < n \<and> n < INT_MAX \<and> (\<exists>bs. files fs p = Some bs \<and> bs \<noteq> [])"
  by (auto simp: SplitFileIntoSections_errors split: if_splits option.splits)

lemma MapSection_open:
  assumes "files fs p = Some bs" "p \<noteq> []"
  shows "MapSection fs p start_pos end_pos (Some f) out =
         Inr (MapSection_loop f end_pos
                (seekg start_pos \<lparr>buf = bs, gpos = 0, eofbit = False, failbit = False\<rparr>) out)"
  using assms by (simp add: MapSection_def open_ifstream_def)

text \<open>
  In a run of \<^verbatim>\<open>main\<close> no mapper throws: \<^verbatim>\<open>MapSection\<close> opens the file that
  \<^verbatim>\<open>SplitFileIntoSections\<close> has just read, under the same non-empty name.
\<close>

lemma mapping_phase_no_throw:
  assumes "files fs p = Some bs" "p \<noteq> []"
  shows "\<exists>map_results. mapping_phase fs p ps sched slots = Inr map_results"
  by (induction sched arbitrary: slots) (simp_all add: MapSection_open[OF assms])

lemma main_phases:
  assumes "length argv = 4"
    and "SplitFileIntoSections fs (argv ! 1) (atoi (argv ! 2)) = Inr ps"
    and "mapping_phase fs (argv ! 1) ps mappers (replicate (nat (atoi (argv ! 2))) []) =
           Inr map_results"
    and "Shuffle map_results (atoi (argv ! 3)) = Inr shuffle_results"
  shows "main fs argv mappers reducers =
           (case reducing_phase fs shuffle_results reducers of
              Inl (e, finished) \<Rightarrow> Terminated e finished
            | Inr fs' \<Rightarrow>
                Returned \<lparr>exit_status = 0, cout = [], cerr = [],
                          spawned = nat (atoi (argv ! 2)) + nat (atoi (argv ! 3)), disk = fs'\<rparr>)"
  using assms by (simp add: main_def)

subsection \<open>When the reducing phase fails\<close>

lemma output_file_name_nonempty: "output_file_name i \<noteq> []"
  by (simp add: output_file_name_def)

lemma ReduceContainer_reduce_func:
  "ReduceContainer fs b (Some reduce_func) (output_file_name i) =
     (if b = [] then (Some (invalid_argument ''Invalid argument''), fs)
      else if \<not> writable fs (output_file_name i)
      then (Some (runtime_error ''Can't open file''), fs)
      else (None, fs\<lparr>files := (files fs)(output_file_name i \<mapsto> write_lines b)\<rparr>))"
  by (simp add: ReduceContainer_def output_file_name_nonempty reduce_func_def)

lemma reducing_phase_fails:
  assumes "\<exists>i \<in> set sched. buckets ! i = [] \<or> \<not> writable fs (output_file_name (int i))"
  shows "\<exists>e finished. reducing_phase fs buckets sched = Inl (e, finished)"
  using assms
proof (induction sched arbitrary: fs)
  case Nil
  then show ?case by simp
next
  case (Cons j sched)
  show ?case
  proof (cases "buckets ! j = [] \<or> \<not> writable fs (output_file_name (int j))")
    case True
    then show ?thesis by (auto simp: ReduceContainer_reduce_func)
  next
    case False
    let ?fs = "fs\<lparr>files := (files fs)(output_file_name (int j) \<mapsto> write_lines (buckets ! j))\<rparr>"
    from False Cons.prems
    have "\<exists>i \<in> set sched. buckets ! i = [] \<or> \<not> writable ?fs (output_file_name (int i))"
      by auto
    from Cons.IH[OF this] obtain e finished where
      "reducing_phase ?fs buckets sched = Inl (e, finished)" by blast
    with False show ?thesis by (simp add: ReduceContainer_reduce_func)
  qed
qed

lemma reducing_phase_succeeds:
  assumes "\<forall>i \<in> set sched. buckets ! i \<noteq> [] \<and> writable fs (output_file_name (int i))"
  shows "\<exists>fs'. reducing_phase fs buckets sched = Inr fs'"
  using assms
proof (induction sched arbitrary: fs)
  case Nil
  then show ?case by simp
next
  case (Cons j sched)
  let ?fs = "fs\<lparr>files := (files fs)(output_file_name (int j) \<mapsto> write_lines (buckets ! j))\<rparr>"
  from Cons.prems
  have "\<forall>i \<in> set sched. buckets ! i \<noteq> [] \<and> writable ?fs (output_file_name (int i))"
    by simp
  from Cons.IH[OF this] obtain fs' where "reducing_phase ?fs buckets sched = Inr fs'" by blast
  with Cons.prems show ?case by (simp add: ReduceContainer_reduce_func)
qed




text \<open>
  Claim C10, as the code has it. With an argument count other than 4, \<^verbatim>\<open>main\<close> prints
  the usage text to standard output and returns \<open>-1\<close>. With 4 arguments: whenever
  \<^verbatim>\<open>main\<close> returns it returns 0 and has printed nothing to standard output; an exception
  of \<^verbatim>\<open>SplitFileIntoSections\<close> or of \<^verbatim>\<open>Shuffle\<close> (the calls on the main thread) is caught,
  its description goes to standard error and the return value is 0; the mappers do not
  throw; and when \<^verbatim>\<open>ReduceContainer\<close> throws in a reducer thread (its bucket is empty or
  its output file cannot be opened) nothing catches it: the run ends in
  \<^verbatim>\<open>std::terminate\<close> and \<^verbatim>\<open>main\<close> does not return. Otherwise \<^verbatim>\<open>main\<close> returns 0 with
  nothing on standard error.
\<close>

theorem main_exit_status:
  "(length argv \<noteq> 4 \<longrightarrow>
      main fs argv mappers reducers =
        Returned \<lparr>exit_status = - 1,
                  cout = ''Usage: '' @ hd argv @ '' <src> <mnum> <runm>'' @ [newline],
                  cerr = [], spawned = 0, disk = fs\<rparr>) \<and>
   (length argv = 4 \<longrightarrow>
      (\<forall>c. main fs argv mappers reducers = Returned c \<longrightarrow> exit_status c = 0 \<and> cout c = []) \<and>
      (\<forall>ex. SplitFileIntoSections fs (argv ! 1) (atoi (argv ! 2)) = Inl ex \<longrightarrow>
         main fs argv mappers reducers =
           Returned \<lparr>exit_status = 0, cout = [], cerr = what ex @ [newline],
                     spawned = 0, disk = fs\<rparr>) \<and>
      (\<forall>ps. SplitFileIntoSections fs (argv ! 1) (atoi (argv ! 2)) = Inr ps \<longrightarrow>
         (\<exists>map_results.
            mapping_phase fs (argv ! 1) ps mappers (replicate (nat (atoi (argv ! 2))) []) =
              Inr map_results \<and>
            (\<forall>ex. Shuffle map_results (atoi (argv ! 3)) = Inl ex \<longrightarrow>
               main fs argv mappers reducers =
                 Returned \<lparr>exit_status = 0, cout = [], cerr = what ex @ [newline],
                           spawned = nat (atoi (argv ! 2)), disk = fs\<rparr>) \<and>
            (\<forall>buckets. Shuffle map_results (atoi (argv ! 3)) = Inr buckets \<longrightarrow>
               ((\<exists>i \<in> set reducers.
                   buckets ! i = [] \<or> \<not> writable fs (output_file_name (int i))) \<longrightarrow>
                (\<exists>e finished. main fs argv mappers reducers = Terminated e finished)) \<and>
               ((\<forall>i \<in> set reducers.
                   buckets ! i \<noteq> [] \<and> writable fs (output_file_name (int i))) \<longrightarrow>
                (\<exists>fs'. main fs argv mappers reducers =
                   Returned \<lparr>exit_status = 0, cout = [], cerr = [],
                             spawned = nat (atoi (argv ! 2)) + nat (atoi (argv ! 3)),
                             disk = fs'\<rparr>))))))"
proof (intro conjI impI allI)
  assume "length argv \<noteq> 4"
  then show "main fs argv mappers reducers =
        Returned \<lparr>exit_status = - 1,
                  cout = ''Usage: '' @ hd argv @ '' <src> <mnum> <runm>'' @ [newline],
                  cerr = [], spawned = 0, disk = fs\<rparr>"
    by (simp add: main_def)
next
  fix c assume "length argv = 4" "main fs argv mappers reducers = Returned c"
  then have "exit_status c = 0 \<and> cout c = []"
    by (auto simp: main_def caught_def Let_def split: sum.splits prod.splits)
  then show "exit_status c = 0" "cout c = []" by simp_all
next
  fix ex assume "length argv = 4" "SplitFileIntoSections fs (argv ! 1) (atoi (argv ! 2)) = Inl ex"
  then show "main fs argv mappers reducers =
           Returned \<lparr>exit_status = 0, cout = [], cerr = what ex @ [newline],
                     spawned = 0, disk = fs\<rparr>"
    by (simp add: main_def caught_def)
next
  fix ps
  assume l: "length argv = 4"
    and sp: "SplitFileIntoSections fs (argv ! 1) (atoi (argv ! 2)) = Inr ps"
  from SplitFileIntoSections_InrD[OF sp] obtain bs where
    "argv ! 1 \<noteq> []" "files fs (argv ! 1) = Some bs" by blast
  from mapping_phase_no_throw[OF this(2,1)] obtain mr where
    mp: "mapping_phase fs (argv ! 1) ps mappers (replicate (nat (atoi (argv ! 2))) []) = Inr mr"
    by blast
  show "\<exists>map_results.
            mapping_phase fs (argv ! 1) ps mappers (replicate (nat (atoi (argv ! 2))) []) =
              Inr map_results \<and>
            (\<forall>ex. Shuffle map_results (atoi (argv ! 3)) = Inl ex \<longrightarrow>
               main fs argv mappers reducers =
                 Returned \<lparr>exit_status = 0, cout = [], cerr = what ex @ [newline],
                           spawned = nat (atoi (argv ! 2)), disk = fs\<rparr>) \<and>
            (\<forall>buckets. Shuffle map_results (atoi (argv ! 3)) = Inr buckets \<longrightarrow>
               ((\<exists>i \<in> set reducers.
                   buckets ! i = [] \<or> \<not> writable fs (output_file_name (int i))) \<longrightarrow>
                (\<exists>e finished. main fs argv mappers reducers = Terminated e finished)) \<and>
               ((\<forall>i \<in> set reducers.
                   buckets ! i \<noteq> [] \<and> writable fs (output_file_name (int i))) \<longrightarrow>
                (\<exists>fs'. main fs argv mappers reducers =
                   Returned \<lparr>exit_status = 0, cout = [], cerr = [],
                             spawned = nat (atoi (argv ! 2)) + nat (atoi (argv ! 3)),
                             disk = fs'\<rparr>)))"
  proof (intro exI[of _ mr] conjI allI impI)
    show "mapping_phase fs (argv ! 1) ps mappers (replicate (nat (atoi (argv ! 2))) []) = Inr mr"
      by (rule mp)
  next
    fix ex assume "Shuffle mr (atoi (argv ! 3)) = Inl ex"
    with l sp mp show "main fs argv mappers reducers =
                 Returned \<lparr>exit_status = 0, cout = [], cerr = what ex @ [newline],
                           spawned = nat (atoi (argv ! 2)), disk = fs\<rparr>"
      by (simp add: main_def caught_def)
  next
    fix buckets
    assume sh: "Shuffle mr (atoi (argv ! 3)) = Inr buckets"
      and "\<exists>i \<in> set reducers. buckets ! i = [] \<or> \<not> writable fs (output_file_name (int i))"
    from reducing_phase_fails[OF this(2)] obtain e finished where
      "reducing_phase fs buckets reducers = Inl (e, finished)" by blast
    then have "main fs argv mappers reducers = Terminated e finished"
      by (simp add: main_phases[OF l sp mp sh])
    then show "\<exists>e finished. main fs argv mappers reducers = Terminated e finished" by blast
  next
    fix buckets
    assume sh: "Shuffle mr (atoi (argv ! 3)) = Inr buckets"
      and "\<forall>i \<in> set reducers. buckets ! i \<noteq> [] \<and> writable fs (output_file_name (int i))"
    from reducing_phase_succeeds[OF this(2)] obtain fs' where
      "reducing_phase fs buckets reducers = Inr fs'" by blast
    then have "main fs argv mappers reducers =
                   Returned \<lparr>exit_status = 0, cout = [], cerr = [],
                             spawned = nat (atoi (argv ! 2)) + nat (atoi (argv ! 3)),
                             disk = fs'\<rparr>"
      by (simp add: main_phases[OF l sp mp sh])
    then show "\<exists>fs'. main fs argv mappers reducers =
                   Returned \<lparr>exit_status = 0, cout = [], cerr = [],
                             spawned = nat (atoi (argv ! 2)) + nat (atoi (argv ! 3)),
                             disk = fs'\<rparr>" by blast
  qed
qed

theorem main_exit_status_witness:
  "main (single_file ''f'' ''a\<newline>'') [''mapreduce'', ''f''] [] [] =
     Returned \<lparr>exit_status = - 1,
               cout = ''Usage: mapreduce <src> <mnum> <runm>'' @ [newline],
               cerr = [], spawned = 0, disk = single_file ''f'' ''a\<newline>''\<rparr> \<and>
   main (single_file ''f'' ''a\<newline>'') [''mapreduce'', ''g'', ''1'', ''1''] [0] [0] =
     Returned \<lparr>exit_status = 0, cout = [], cerr = ''Can't open file'' @ [newline],
               spawned = 0, disk = single_file ''f'' ''a\<newline>''\<rparr> \<and>
   main (single_file ''f'' ''a\<newline>'') [''mapreduce'', ''f'', ''1'', ''0''] [0] [] =
     Returned \<lparr>exit_status = 0, cout = [], cerr = ''Invalid argument'' @ [newline],
               spawned = 1, disk = single_file ''f'' ''a\<newline>''\<rparr> \<and>
   (\<exists>e finished.
      main (single_file ''f'' ''a\<newline>'') [''mapreduce'', ''f'', ''1'', ''2''] [0] [0, 1] =
        Terminated e finished) \<and>
   (\<exists>fs'. main (single_file ''f'' ''a\<newline>'') [''mapreduce'', ''f'', ''1'', ''1''] [0] [0] =
        Returned \<lparr>exit_status = 0, cout = [], cerr = [], spawned = 2, disk = fs'\<rparr>)"
proof -
  let ?fs = "single_file ''f'' ''a\<newline>''"
  have a1: "atoi ''1'' = 1" and a0: "atoi ''0'' = 0" and a2: "atoi ''2'' = 2" by code_simp+
  have u: "length [''mapreduce'', ''f''] \<noteq> 4" by simp
  have o: "SplitFileIntoSections ?fs ''g'' 1 = Inl (runtime_error ''Can't open file'')"
    by (simp add: SplitFileIntoSections_errors single_file_def)
  have s: "SplitFileIntoSections ?fs ''f'' 1 = Inr [0, 2]"
    by code_simp
  have m: "mapping_phase ?fs ''f'' [0, 2] [0] (replicate (nat 1) []) = Inr [[''a'']]"
    by code_simp
  have h0: "Shuffle [[''a'']] 0 = Inl (invalid_argument ''Invalid argument'')"
    by (simp add: Shuffle_def)
  have h1: "Shuffle [[''a'']] 1 = Inr [[''a'']]" by code_simp
  have h2: "Shuffle [[''a'']] 2 = Inr [[''a''], []]" by code_simp
  from main_exit_status[of "[''mapreduce'', ''f'']" ?fs "[]" "[]"] u
  have 1: "main ?fs [''mapreduce'', ''f''] [] [] =
     Returned \<lparr>exit_status = - 1,
               cout = ''Usage: mapreduce <src> <mnum> <runm>'' @ [newline],
               cerr = [], spawned = 0, disk = ?fs\<rparr>" by simp
  from main_exit_status[of "[''mapreduce'', ''g'', ''1'', ''1'']" ?fs "[0]" "[0]"] o
  have 2: "main ?fs [''mapreduce'', ''g'', ''1'', ''1''] [0] [0] =
     Returned \<lparr>exit_status = 0, cout = [], cerr = ''Can't open file'' @ [newline],
               spawned = 0, disk = ?fs\<rparr>" by (simp add: a1)
  have 3: "main ?fs [''mapreduce'', ''f'', ''1'', ''0''] [0] [] =
     Returned \<lparr>exit_status = 0, cout = [], cerr = ''Invalid argument'' @ [newline],
               spawned = 1, disk = ?fs\<rparr>"
  proof -
    from main_exit_status[of "[''mapreduce'', ''f'', ''1'', ''0'']" ?fs "[0]" "[]"] s
    obtain mr where
      "mapping_phase ?fs ''f'' [0, 2] [0] (replicate (nat 1) []) = Inr mr"
      "\<forall>ex. Shuffle mr 0 = Inl ex \<longrightarrow>
         main ?fs [''mapreduce'', ''f'', ''1'', ''0''] [0] [] =
           Returned \<lparr>exit_status = 0, cout = [], cerr = what ex @ [newline],
                     spawned = nat 1, disk = ?fs\<rparr>"
      by (auto simp: a1 a0)
    with m h0 show ?thesis by simp
  qed
  have 4: "\<exists>e finished. main ?fs [''mapreduce'', ''f'', ''1'', ''2''] [0] [0, 1] =
             Terminated e finished"
  proof -
    from main_exit_status[of "[''mapreduce'', ''f'', ''1'', ''2'']" ?fs "[0]" "[0, 1]"] s
    obtain mr where
      "mapping_phase ?fs ''f'' [0, 2] [0] (replicate (nat 1) []) = Inr mr"
      "\<forall>buckets. Shuffle mr 2 = Inr buckets \<longrightarrow>
         ((\<exists>i \<in> set [0, 1]. buckets ! i = [] \<or> \<not> writable ?fs (output_file_name (int i))) \<longrightarrow>
          (\<exists>e finished. main ?fs [''mapreduce'', ''f'', ''1'', ''2''] [0] [0, 1] =
             Terminated e finished))"
      by (auto simp: a1 a2)
    with m h2 have "(\<exists>i \<in> set [0, 1]. [[''a''], []] ! i = [] \<or>
                        \<not> writable ?fs (output_file_name (int i))) \<longrightarrow>
          (\<exists>e finished. main ?fs [''mapreduce'', ''f'', ''1'', ''2''] [0] [0, 1] =
             Terminated e finished)"
      by simp
    moreover have "\<exists>i \<in> set [0, 1 :: nat]. [[''a''], []] ! i = ([] :: string list) \<or>
                        \<not> writable ?fs (output_file_name (int i))"
      by (rule bexI[of _ 1]) simp_all
    ultimately show ?thesis by blast
  qed
  have 5: "\<exists>fs'. main ?fs [''mapreduce'', ''f'', ''1'', ''1''] [0] [0] =
        Returned \<lparr>exit_status = 0, cout = [], cerr = [], spawned = 2, disk = fs'\<rparr>"
  proof -
    from main_exit_status[of "[''mapreduce'', ''f'', ''1'', ''1'']" ?fs "[0]" "[0]"] s
    obtain mr where
      "mapping_phase ?fs ''f'' [0, 2] [0] (replicate (nat 1) []) = Inr mr"
      "\<forall>buckets. Shuffle mr 1 = Inr buckets \<longrightarrow>
         ((\<forall>i \<in> set [0]. buckets ! i \<noteq> [] \<and> writable ?fs (output_file_name (int i))) \<longrightarrow>
          (\<exists>fs'. main ?fs [''mapreduce'', ''f'', ''1'', ''1''] [0] [0] =
             Returned \<lparr>exit_status = 0, cout = [], cerr = [], spawned = nat 1 + nat 1,
                       disk = fs'\<rparr>))"
      by (auto simp: a1)
    with m h1 have "(\<forall>i \<in> set [0]. [[''a'']] ! i \<noteq> [] \<and> writable ?fs (output_file_name (int i))) \<longrightarrow>
          (\<exists>fs'. main ?fs [''mapreduce'', ''f'', ''1'', ''1''] [0] [0] =
             Returned \<lparr>exit_status = 0, cout = [], cerr = [], spawned = nat 1 + nat 1,
                       disk = fs'\<rparr>)"
      by simp
    moreover have "\<forall>i \<in> set [0 :: nat]. [[''a'']] ! i \<noteq> ([] :: string list) \<and>
                      writable ?fs (output_file_name (int i))"
      by (simp add: single_file_def)
    ultimately show ?thesis by (simp add: numeral_2_eq_2)
  qed
  from 1 2 3 4 5 show ?thesis by (intro conjI)
qed

text \<open>
  The claim as it stands fails at a reducer failure: with one distinct line and two
  reducers, reducer 0 writes its file, reducer 1 throws on its empty bucket, and the
  process ends in \<^verbatim>\<open>std::terminate\<close> instead of printing the error and returning 0.
\<close>

theorem main_exit_status_counterexample:
  "main (single_file ''f'' ''a\<newline>'') [''mapreduce'', ''f'', ''1'', ''2''] [0] [0, 1] =
     Terminated (invalid_argument ''Invalid argument'') [0]"
proof -
  let ?fs = "single_file ''f'' ''a\<newline>''"
  let ?argv = "[''mapreduce'', ''f'', ''1'', ''2'']"
  have l: "length ?argv = 4" by simp
  have s: "SplitFileIntoSections ?fs (?argv ! 1) (atoi (?argv ! 2)) = Inr [0, 2]"
    by code_simp
  have m: "mapping_phase ?fs (?argv ! 1) [0, 2] [0] (replicate (nat (atoi (?argv ! 2))) []) =
             Inr [[''a'']]"
    by code_simp
  have h: "Shuffle [[''a'']] (atoi (?argv ! 3)) = Inr [[''a''], []]"
    by code_simp
  have r: "reducing_phase ?fs [[''a''], []] [0, 1] =
             Inl (invalid_argument ''Invalid argument'', [0])"
    by (simp add: ReduceContainer_reduce_func single_file_def)
  show ?thesis
    unfolding main_phases[OF l s m h] r by simp
qed


section \<open>More reducers than distinct keys\<close>




lemma schedule_permutation:
  assumes "mset sched = mset [0..<n]"
  shows "distinct sched" "set sched = {..<n}"
proof -
  from assms have "distinct sched \<longleftrightarrow> distinct [0..<n]"
    by (rule mset_eq_imp_distinct_iff)
  then show "distinct sched" by simp
  from assms have "set sched = set [0..<n]" by (rule mset_eq_setD)
  also have "\<dots> = {..<n}" by (simp add: atLeast0LessThan)
  finally show "set sched = {..<n}" .
qed




section \<open>Determinism: the schedule of the mapper threads does not matter\<close>

lemma SplitFileIntoSections_same_file:
  "files fs1 p = files fs2 p \<Longrightarrow> SplitFileIntoSections fs1 p n = SplitFileIntoSections fs2 p n"
  by (simp add: SplitFileIntoSections_errors)

lemma mapping_phase_schedule:
  assumes "files fs p = Some bs" "p \<noteq> []"
    and "distinct sched" "set sched \<subseteq> {..<length slots}"
  shows "mapping_phase fs p ps sched slots =
         Inr (map (\<lambda>i. if i \<in> set sched
                       then MapSection_loop map_func (ps ! (i + 1))
                              (seekg (ps ! i) \<lparr>buf = bs, gpos = 0, eofbit = False, failbit = False\<rparr>)
                              (slots ! i)
                       else slots ! i) [0..<length slots])"
  using assms(3,4)
proof (induction sched arbitrary: slots)
  case Nil
  show ?case by (simp add: map_nth)
next
  case (Cons i sched)
  let ?W = "\<lambda>i out. MapSection_loop map_func (ps ! (i + 1))
                 (seekg (ps ! i) \<lparr>buf = bs, gpos = 0, eofbit = False, failbit = False\<rparr>) out"
  let ?slots = "slots[i := ?W i (slots ! i)]"
  from Cons.prems have i: "i < length slots" "i \<notin> set sched"
    and d: "distinct sched" and sub: "set sched \<subseteq> {..<length ?slots}"
    by auto
  have "mapping_phase fs p ps (i # sched) slots = mapping_phase fs p ps sched ?slots"
    by (simp add: MapSection_open[OF assms(1,2)])
  also have "\<dots> = Inr (map (\<lambda>j. if j \<in> set sched then ?W j (?slots ! j) else ?slots ! j)
                         [0..<length ?slots])"
    by (rule Cons.IH[OF d sub])
  also have "map (\<lambda>j. if j \<in> set sched then ?W j (?slots ! j) else ?slots ! j) [0..<length ?slots] =
             map (\<lambda>j. if j \<in> set (i # sched) then ?W j (slots ! j) else slots ! j) [0..<length slots]"
    using i by (auto simp: nth_list_update)
  finally show ?case .
qed

lemma mapping_phase_all:
  assumes "files fs p = Some bs" "p \<noteq> []" and "mset sched = mset [0..<n]"
  shows "mapping_phase fs p ps sched (replicate n []) =
         Inr (map (\<lambda>i. MapSection_loop map_func (ps ! (i + 1))
                         (seekg (ps ! i) \<lparr>buf = bs, gpos = 0, eofbit = False, failbit = False\<rparr>) [])
               [0..<n])"
proof -
  note s = schedule_permutation[OF assms(3)]
  have sub: "set sched \<subseteq> {..<length (replicate n ([] :: string list))}"
    by (simp add: s(2))
  show ?thesis
    unfolding mapping_phase_schedule[OF assms(1,2) s(1) sub]
    by (simp add: s(2) cong: map_cong)
qed

text \<open>
  Claim C6. The section boundaries depend on the bytes of the input file and the mapper
  count only. For the boundaries of a successful split, every schedule that runs each
  mapper once fills the slots with the same mapper outputs, whatever else differs
  between the two file systems; the buckets are a function of these outputs and the
  reducer count: those of \<open>shuffle_spec\<close>.
\<close>

theorem pipeline_deterministic:
  assumes "files fs1 p = files fs2 p"
    and "mset mappers1 = mset [0..<nat n]" and "mset mappers2 = mset [0..<nat n]"
  shows "SplitFileIntoSections fs1 p n = SplitFileIntoSections fs2 p n \<and>
         (\<forall>ps. SplitFileIntoSections fs1 p n = Inr ps \<longrightarrow>
            (\<exists>map_results.
               mapping_phase fs1 p ps mappers1 (replicate (nat n) []) = Inr map_results \<and>
               mapping_phase fs2 p ps mappers2 (replicate (nat n) []) = Inr map_results \<and>
               (\<forall>r buckets. Shuffle map_results r = Inr buckets \<longrightarrow>
                  buckets = shuffle_spec (concat map_results) (nat r))))"
proof (intro conjI allI impI)
  show "SplitFileIntoSections fs1 p n = SplitFileIntoSections fs2 p n"
    by (rule SplitFileIntoSections_same_file[OF assms(1)])
next
  fix ps assume "SplitFileIntoSections fs1 p n = Inr ps"
  from SplitFileIntoSections_InrD[OF this] obtain bs where
    p: "p \<noteq> []" and f1: "files fs1 p = Some bs" by blast
  with assms(1) have f2: "files fs2 p = Some bs" by simp
  define mr where "mr = map (\<lambda>i. MapSection_loop map_func (ps ! (i + 1))
                         (seekg (ps ! i) \<lparr>buf = bs, gpos = 0, eofbit = False, failbit = False\<rparr>) [])
               [0..<nat n]"
  have m1: "mapping_phase fs1 p ps mappers1 (replicate (nat n) []) = Inr mr"
    unfolding mr_def by (rule mapping_phase_all[OF f1 p assms(2)])
  have m2: "mapping_phase fs2 p ps mappers2 (replicate (nat n) []) = Inr mr"
    unfolding mr_def by (rule mapping_phase_all[OF f2 p assms(3)])
  have sh: "\<forall>r buckets. Shuffle mr r = Inr buckets \<longrightarrow>
                  buckets = shuffle_spec (concat mr) (nat r)"
  proof (intro allI impI)
    fix r buckets assume h: "Shuffle mr r = Inr buckets"
    then have "mr \<noteq> []" "0 < r" by (auto simp: Shuffle_def split: if_splits)
    from Shuffle_eq_spec[OF this] h show "buckets = shuffle_spec (concat mr) (nat r)" by simp
  qed
  show "\<exists>map_results.
               mapping_phase fs1 p ps mappers1 (replicate (nat n) []) = Inr map_results \<and>
               mapping_phase fs2 p ps mappers2 (replicate (nat n) []) = Inr map_results \<and>
               (\<forall>r buckets. Shuffle map_results r = Inr buckets \<longrightarrow>
                  buckets = shuffle_spec (concat map_results) (nat r))"
    by (intro exI[of _ mr] conjI m1 m2 sh)
qed

theorem pipeline_deterministic_witness:
  "files (single_file ''f'' ''a\<newline>b\<newline>'') ''f'' =
     files ((single_file ''f'' ''a\<newline>b\<newline>'')\<lparr>writable := (\<lambda>_. False)\<rparr>) ''f'' \<and>
   mset [0, 1] = mset [0..<nat 2] \<and> mset [1, 0] = mset [0..<nat 2] \<and>
   SplitFileIntoSections (single_file ''f'' ''a\<newline>b\<newline>'') ''f'' 2 = Inr [0, 4, 4] \<and>
   SplitFileIntoSections ((single_file ''f'' ''a\<newline>b\<newline>'')\<lparr>writable := (\<lambda>_. False)\<rparr>) ''f'' 2 =
     Inr [0, 4, 4] \<and>
   mapping_phase (single_file ''f'' ''a\<newline>b\<newline>'') ''f'' [0, 4, 4] [0, 1] (replicate (nat 2) []) =
     Inr [[''a'', ''b''], []] \<and>
   mapping_phase ((single_file ''f'' ''a\<newline>b\<newline>'')\<lparr>writable := (\<lambda>_. False)\<rparr>) ''f'' [0, 4, 4]
       [1, 0] (replicate (nat 2) []) =
     Inr [[''a'', ''b''], []]"
proof -
  let ?fs1 = "single_file ''f'' ''a\<newline>b\<newline>''"
  let ?fs2 = "(single_file ''f'' ''a\<newline>b\<newline>'')\<lparr>writable := (\<lambda>_. False)\<rparr>"
  have f: "files ?fs1 ''f'' = files ?fs2 ''f''" by simp
  have u: "[0..<nat 2] = [0, 1]" by code_simp
  have m1: "mset [0, 1] = mset [0..<nat 2]" unfolding u by simp
  have m2: "mset [1, 0] = mset [0..<nat 2]" unfolding u by simp
  have s: "SplitFileIntoSections ?fs1 ''f'' 2 = Inr [0, 4, 4]" by code_simp
  have m: "mapping_phase ?fs1 ''f'' [0, 4, 4] [0, 1] (replicate (nat 2) []) = Inr [[''a'', ''b''], []]"
    by code_simp
  note d = pipeline_deterministic[OF f m1 m2]
  from d s have s2: "SplitFileIntoSections ?fs2 ''f'' 2 = Inr [0, 4, 4]"
    by simp
  from d s obtain map_results where
    "mapping_phase ?fs1 ''f'' [0, 4, 4] [0, 1] (replicate (nat 2) []) = Inr map_results"
    "mapping_phase ?fs2 ''f'' [0, 4, 4] [1, 0] (replicate (nat 2) []) = Inr map_results"
    by blast
  with m have m': "mapping_phase ?fs2 ''f'' [0, 4, 4] [1, 0] (replicate (nat 2) []) =
                  Inr [[''a'', ''b''], []]"
    by simp
  from f m1 m2 s s2 m m' show ?thesis by (intro conjI)
qed


section \<open>Files that end with a newline\<close>

text \<open>
  When the last byte of the file is a newline, every \<^verbatim>\<open>getline\<close> of
  \<^verbatim>\<open>SplitFileIntoSections\<close> stops at a newline, the stream stays good, and the
  properties of sectioning, coverage and round trip hold. The lemmas of this section
  prove them under that assumption; the next section shows what happens without it.
\<close>

subsection \<open>Line starts\<close>

lemma takeWhile_before_last:
  assumes "t < length bs" "last bs = newline"
  shows "length (takeWhile (\<lambda>c. c \<noteq> newline) (drop t bs)) < length (drop t bs)"
proof -
  let ?xs = "drop t bs"
  from assms(1) have ne: "?xs \<noteq> []" by simp
  with assms have "last ?xs = newline" by simp
  with ne have "\<exists>x \<in> set ?xs. \<not> x \<noteq> newline" by (metis last_in_set)
  then have "takeWhile (\<lambda>c. c \<noteq> newline) ?xs \<noteq> ?xs"
    by simp
  moreover have "length (takeWhile (\<lambda>c. c \<noteq> newline) ?xs) \<le> length ?xs"
    by (rule length_takeWhile_le)
  ultimately show ?thesis
    by (metis le_neq_implies_less takeWhile_eq_take take_all_iff order_refl)
qed

lemma next_line_start_bounds:
  assumes "t < length bs" "last bs = newline"
  shows "t < next_line_start bs t" "next_line_start bs t \<le> length bs"
    "bs ! (next_line_start bs t - 1) = newline"
proof -
  let ?l = "takeWhile (\<lambda>c. c \<noteq> newline) (drop t bs)"
  note lt = takeWhile_before_last[OF assms]
  show "t < next_line_start bs t" by (simp add: next_line_start_def)
  from lt show "next_line_start bs t \<le> length bs" by (simp add: next_line_start_def)
  from lt have "drop t bs ! length ?l = newline"
    using nth_length_takeWhile[of "\<lambda>c. c \<noteq> newline" "drop t bs"] by simp
  with lt show "bs ! (next_line_start bs t - 1) = newline"
    by (simp add: next_line_start_def)
qed

lemma no_newline_before_next_line_start:
  assumes "t \<le> k" "Suc k < next_line_start bs t"
  shows "bs ! k \<noteq> newline"
proof -
  let ?l = "takeWhile (\<lambda>c. c \<noteq> newline) (drop t bs)"
  from assms have k: "k - t < length ?l" by (simp add: next_line_start_def)
  then have "?l ! (k - t) \<noteq> newline"
    using set_takeWhileD[OF nth_mem[OF k]] by blast
  moreover have "?l ! (k - t) = drop t bs ! (k - t)"
    using k by (rule takeWhile_nth)
  moreover have "k - t < length (drop t bs)"
    using k length_takeWhile_le[of "\<lambda>c. c \<noteq> newline" "drop t bs"] by linarith
  ultimately show ?thesis using assms(1) by simp
qed

lemma next_line_start_mono:
  assumes "t \<le> t'" "t' < length bs" "last bs = newline"
  shows "next_line_start bs t \<le> next_line_start bs t'"
proof (rule ccontr)
  assume "\<not> next_line_start bs t \<le> next_line_start bs t'"
  then have lt: "next_line_start bs t' < next_line_start bs t" by simp
  let ?k = "next_line_start bs t' - 1"
  from next_line_start_bounds[OF assms(2,3)] have b: "t' < next_line_start bs t'"
    "bs ! ?k = newline" by simp_all
  from b(1) assms(1) lt have "t \<le> ?k" "Suc ?k < next_line_start bs t" by simp_all
  from no_newline_before_next_line_start[OF this] b(2) show False by simp
qed

lemma getline_good:
  assumes "\<not> eofbit s" "\<not> failbit s" "gpos s < length (buf s)" "last (buf s) = newline"
  shows "getline s =
           ((True, takeWhile (\<lambda>c. c \<noteq> newline) (drop (gpos s) (buf s))),
            s\<lparr>gpos := next_line_start (buf s) (gpos s)\<rparr>)"
  using assms takeWhile_before_last[OF assms(3,4)]
  by (simp add: getline_def Let_def next_line_start_def)


subsection \<open>The boundaries computed by SplitFileIntoSections\<close>

lemma split_loop_step:
  assumes "i < n" "buf s = bs" "\<not> failbit s" "0 \<le> q * i" "nat (q * i) < length bs"
    "last bs = newline"
  shows "split_loop i n q s ps =
         split_loop (i + 1) n q
           (s\<lparr>eofbit := False, gpos := next_line_start bs (nat (q * i))\<rparr>)
           (ps[nat i := int (next_line_start bs (nat (q * i)))])"
proof -
  let ?s' = "s\<lparr>eofbit := False, gpos := nat (q * i)\<rparr>"
  have sk: "seekg (q * i) s = ?s'"
    using assms(3,4) by (simp add: seekg_def Let_def)
  have gl: "getline ?s' =
          ((True, takeWhile (\<lambda>c. c \<noteq> newline) (drop (gpos ?s') (buf ?s'))),
           ?s'\<lparr>gpos := next_line_start (buf ?s') (gpos ?s')\<rparr>)"
    by (rule getline_good) (use assms in simp_all)
  have tg: "tellg (?s'\<lparr>gpos := next_line_start (buf ?s') (gpos ?s')\<rparr>) =
          (int (next_line_start bs (nat (q * i))),
           s\<lparr>eofbit := False, gpos := next_line_start bs (nat (q * i))\<rparr>)"
    using assms(2,3) by (simp add: tellg_def)
  show ?thesis
    by (subst split_loop.simps) (simp only: assms(1) if_True sk gl tg prod.case)
qed

lemma split_loop_aligned:
  assumes "last bs = newline" "0 \<le> q"
  shows "buf s = bs \<Longrightarrow> \<not> failbit s \<Longrightarrow> 0 \<le> i \<Longrightarrow>
         (\<forall>j. i \<le> j \<and> j < n \<longrightarrow> nat (q * j) < length bs) \<Longrightarrow>
         length (split_loop i n q s ps) = length ps \<and>
         (\<forall>j<length ps. split_loop i n q s ps ! j =
            (if i \<le> int j \<and> int j < n then int (next_line_start bs (nat (q * int j)))
             else ps ! j))"
proof (induction "nat (n - i)" arbitrary: i s ps)
  case 0
  then have "\<not> i < n" by simp
  then show ?case by (simp add: split_loop.simps[of i])
next
  case (Suc k)
  then have lt: "i < n" by linarith
  let ?v = "next_line_start bs (nat (q * i))"
  let ?s = "s\<lparr>eofbit := False, gpos := ?v\<rparr>"
  let ?ps = "ps[nat i := int ?v]"
  from Suc.prems(3) assms(2) have qi: "0 \<le> q * i" by simp
  from Suc.prems(4) lt have tl: "nat (q * i) < length bs" by simp
  have step: "split_loop i n q s ps = split_loop (i + 1) n q ?s ?ps"
    by (rule split_loop_step[OF lt Suc.prems(1,2) qi tl assms(1)])
  have k: "k = nat (n - (i + 1))" using Suc.hyps(2) by linarith
  have IH: "length (split_loop (i + 1) n q ?s ?ps) = length ?ps \<and>
         (\<forall>j<length ?ps. split_loop (i + 1) n q ?s ?ps ! j =
            (if i + 1 \<le> int j \<and> int j < n then int (next_line_start bs (nat (q * int j)))
             else ?ps ! j))"
    by (rule Suc.hyps(1)[OF k]) (use Suc.prems in simp_all)
  show ?case
  proof (intro conjI allI impI)
    show "length (split_loop i n q s ps) = length ps"
      using IH by (simp add: step)
  next
    fix j assume j: "j < length ps"
    with IH have e: "split_loop i n q s ps ! j =
            (if i + 1 \<le> int j \<and> int j < n then int (next_line_start bs (nat (q * int j)))
             else ?ps ! j)"
      by (simp add: step)
    show "split_loop i n q s ps ! j =
            (if i \<le> int j \<and> int j < n then int (next_line_start bs (nat (q * int j)))
             else ps ! j)"
    proof (cases "int j = i")
      case True
      then have "nat i = j" by simp
      with True j lt show ?thesis unfolding e by simp
    next
      case False
      then have "nat i \<noteq> j" using Suc.prems(3) by linarith
      with False show ?thesis unfolding e by simp
    qed
  qed
qed


lemma target_in_file:
  assumes "bs \<noteq> []" "j < n"
  shows "j * (length bs div n) < length bs"
proof (cases "length bs div n = 0")
  case True
  with assms(1) show ?thesis by simp
next
  case False
  have "j * (length bs div n) < n * (length bs div n)"
    using assms(2) False by simp
  also have "\<dots> \<le> length bs" by (simp add: mult.commute)
  finally show ?thesis .
qed

lemma section_boundaries_nth:
  assumes "0 < n" "j \<le> n"
  shows "section_boundaries bs n ! j =
           (if j = 0 then 0 else if j = n then length bs
            else next_line_start bs (j * (length bs div n)))"
proof -
  let ?m = "map (\<lambda>i. next_line_start bs (i * (length bs div n))) [1..<n]"
  have len: "length ?m = n - 1" by simp
  show ?thesis
  proof (cases "j = 0")
    case True
    then show ?thesis by (simp add: section_boundaries_def)
  next
    case False
    then obtain k where k: "j = Suc k" by (cases j) auto
    show ?thesis
    proof (cases "j = n")
      case True
      with k have "k = length ?m" by simp
      then have "(?m @ [length bs]) ! k = length bs" by (simp only: nth_append_length)
      with k True show ?thesis by (simp add: section_boundaries_def)
    next
      case False
      with assms(2) k have kl: "k < n - 1" by simp
      then have "(?m @ [length bs]) ! k = ?m ! k" by (simp add: nth_append)
      also have "\<dots> = next_line_start bs (Suc k * (length bs div n))"
        using kl by simp
      finally show ?thesis using k False by (simp add: section_boundaries_def)
    qed
  qed
qed

text \<open>
  The boundaries are those of the specification: \<open>n + 1\<close> offsets, 0 first, the file
  size last, every inner one just after the first newline at or after its target.
\<close>

lemma SplitFileIntoSections_terminated:
  assumes "files fs p = Some bs" "p \<noteq> []" "bs \<noteq> []" "last bs = newline" "0 < n"
    and "n < INT_MAX"
  shows "SplitFileIntoSections fs p n = Inr (map int (section_boundaries bs (nat n)))"
proof -
  let ?q = "int (length bs) div n"
  let ?s = "\<lparr>buf = bs, gpos = 0, eofbit = False, failbit = False\<rparr>"
  let ?ps = "(replicate (nat (n + 1)) (0::int))[0 := 0]"
  let ?res = "split_loop 1 n ?q ?s ?ps"
  have q: "?q = int (length bs div nat n)"
    using assms(5) by (simp add: zdiv_int)
  have qj: "nat (?q * int j) = j * (length bs div nat n)" for j
    by (simp add: q nat_mult_distrib mult.commute)
  have tg: "\<forall>j. 1 \<le> j \<and> j < n \<longrightarrow> nat (?q * j) < length bs"
  proof (intro allI impI)
    fix j :: int assume j: "1 \<le> j \<and> j < n"
    then have "nat j < nat n" by simp
    from target_in_file[OF assms(3) this] qj[of "nat j"] j
    show "nat (?q * j) < length bs" by simp
  qed
  have "0 \<le> ?q" by (simp add: q)
  from split_loop_aligned[OF assms(4) this, of ?s 1 n ?ps] tg
  have len: "length ?res = length ?ps"
    and nth: "\<forall>j<length ?ps. ?res ! j =
            (if 1 \<le> int j \<and> int j < n then int (next_line_start bs (nat (?q * int j)))
             else ?ps ! j)"
    by simp_all
  have lps: "length ?ps = Suc (nat n)" using assms(5) by (simp add: nat_add_distrib)
  have "?res[nat n := int (length bs)] = map int (section_boundaries bs (nat n))"
  proof (rule nth_equalityI)
    show "length (?res[nat n := int (length bs)]) = length (map int (section_boundaries bs (nat n)))"
      using assms(5) by (simp add: len lps section_boundaries_def)
  next
    fix j assume "j < length (?res[nat n := int (length bs)])"
    then have j: "j \<le> nat n" "j < length ?ps" by (simp_all add: len lps)
    have n0: "0 < nat n" using assms(5) by simp
    have jl: "j < length (section_boundaries bs (nat n))"
      using j n0 by (simp add: section_boundaries_def)
    show "?res[nat n := int (length bs)] ! j = map int (section_boundaries bs (nat n)) ! j"
    proof (cases "j = nat n")
      case True
      have "map int (section_boundaries bs (nat n)) ! j = int (section_boundaries bs (nat n) ! j)"
        by (rule nth_map[OF jl])
      also have "\<dots> = int (length bs)"
        unfolding section_boundaries_nth[OF n0 j(1)] using True n0 by simp
      also have "\<dots> = ?res[nat n := int (length bs)] ! j"
        using True j(2) by (simp add: len)
      finally show ?thesis by simp
    next
      case False
      with j(1) have jn: "int j < n" by linarith
      from False have "?res[nat n := int (length bs)] ! j = ?res ! j" by simp
      also have "\<dots> = (if 1 \<le> int j \<and> int j < n
                          then int (next_line_start bs (nat (?q * int j))) else ?ps ! j)"
        using nth j(2) by blast
      also have "\<dots> = int (section_boundaries bs (nat n) ! j)"
        unfolding section_boundaries_nth[OF n0 j(1)]
        using jn False j(2) lps by (cases "j = 0") (simp_all add: qj)
      finally show ?thesis by (simp add: nth_map[OF jl])
    qed
  qed
  then show ?thesis
    using assms by (simp add: SplitFileIntoSections_errors)
qed

text \<open>Every inner boundary follows a newline, and the boundaries do not decrease.\<close>

lemma section_boundaries_aligned:
  assumes "bs \<noteq> []" "last bs = newline" "0 < n" "0 < i" "i < n"
  shows "section_boundaries bs n ! i = next_line_start bs (i * (length bs div n))"
    "0 < section_boundaries bs n ! i" "section_boundaries bs n ! i \<le> length bs"
    "bs ! (section_boundaries bs n ! i - 1) = newline"
proof -
  show e: "section_boundaries bs n ! i = next_line_start bs (i * (length bs div n))"
    using assms by (simp add: section_boundaries_nth)
  note b = next_line_start_bounds[OF target_in_file[OF assms(1,5)] assms(2)]
  from b(1) show "0 < section_boundaries bs n ! i" unfolding e by simp
  from b(2) show "section_boundaries bs n ! i \<le> length bs" unfolding e .
  from b(3) show "bs ! (section_boundaries bs n ! i - 1) = newline" unfolding e .
qed

lemma section_boundaries_mono:
  assumes "bs \<noteq> []" "last bs = newline" "0 < n" "i \<le> j" "j \<le> n"
  shows "section_boundaries bs n ! i \<le> section_boundaries bs n ! j"
proof -
  let ?q = "length bs div n"
  have in_le: "i \<le> n" using assms by simp
  show ?thesis
  proof (cases "i = 0")
    case True
    then show ?thesis using assms by (simp add: section_boundaries_nth)
  next
    case i0: False
    show ?thesis
    proof (cases "j = n")
      case True
      show ?thesis
      proof (cases "i = n")
        case True
        with \<open>j = n\<close> show ?thesis by simp
      next
        case False
        with in_le i0 have "0 < i" "i < n" by simp_all
        from section_boundaries_aligned(3)[OF assms(1,2,3) this] True assms(3)
        show ?thesis by (simp add: section_boundaries_nth)
      qed
    next
      case False
      with assms i0 have ij: "0 < i" "i < n" "0 < j" "j < n" by simp_all
      have "i * ?q \<le> j * ?q" using assms(4) by simp
      from next_line_start_mono[OF this target_in_file[OF assms(1) ij(4)] assms(2)]
      show ?thesis
        using ij assms(3) by (simp add: section_boundaries_nth)
    qed
  qed
qed


subsection \<open>A mapper reads exactly the lines of its section\<close>

lemma lines_acc_line:
  "newline \<notin> set l \<Longrightarrow> lines_acc cur (l @ newline # rest) = (cur @ l) # lines_acc [] rest"
  by (induction l arbitrary: cur) auto

lemma file_lines_line:
  "newline \<notin> set l \<Longrightarrow> file_lines (l @ newline # rest) = l # file_lines rest"
  by (simp add: file_lines_def lines_acc_line)

lemma lines_acc_append:
  "xs \<noteq> [] \<Longrightarrow> last xs = newline \<Longrightarrow>
   lines_acc cur (xs @ ys) = lines_acc cur xs @ lines_acc [] ys"
proof (induction xs arbitrary: cur)
  case Nil
  then show ?case by simp
next
  case (Cons c cs)
  show ?case
  proof (cases "cs = []")
    case True
    with Cons.prems show ?thesis by simp
  next
    case False
    with Cons.prems have "last cs = newline" by simp
    from Cons.IH[OF False this] show ?thesis by simp
  qed
qed

lemma file_lines_append:
  "xs = [] \<or> last xs = newline \<Longrightarrow> file_lines (xs @ ys) = file_lines xs @ file_lines ys"
  by (cases "xs = []") (simp_all add: file_lines_def lines_acc_append)

lemma drop_line:
  assumes "p < length bs" "last bs = newline"
  shows "drop p bs =
         takeWhile (\<lambda>c. c \<noteq> newline) (drop p bs) @ newline # drop (next_line_start bs p) bs"
proof -
  let ?P = "\<lambda>c. c \<noteq> newline"
  let ?xs = "drop p bs"
  let ?l = "takeWhile ?P ?xs"
  note lt = takeWhile_before_last[OF assms]
  have d: "dropWhile ?P ?xs = drop (length ?l) ?xs"
    by (rule dropWhile_eq_drop)
  from lt have ne: "drop (length ?l) ?xs \<noteq> []" by simp
  have "?xs ! length ?l = newline"
    using nth_length_takeWhile[OF lt] by simp
  with lt have "drop (length ?l) ?xs = newline # drop (Suc (length ?l)) ?xs"
    by (metis Cons_nth_drop_Suc)
  moreover have "drop (Suc (length ?l)) ?xs = drop (next_line_start bs p) bs"
    by (simp add: next_line_start_def add.commute)
  moreover have "?xs = ?l @ dropWhile ?P ?xs" by simp
  ultimately show ?thesis using d by metis
qed

lemma section_first_line:
  assumes "p < length bs" "last bs = newline" "next_line_start bs p \<le> e"
  shows "drop p (take e bs) =
         takeWhile (\<lambda>c. c \<noteq> newline) (drop p bs) @ newline #
           drop (next_line_start bs p) (take e bs)"
proof -
  let ?l = "takeWhile (\<lambda>c. c \<noteq> newline) (drop p bs)"
  let ?v = "next_line_start bs p"
  have v: "?v = p + length ?l + 1" by (simp add: next_line_start_def)
  have "drop p (take e bs) = take (e - p) (drop p bs)" by (rule drop_take)
  also have "\<dots> = take (e - p) (?l @ newline # drop ?v bs)"
    using drop_line[OF assms(1,2)] by simp
  also have "\<dots> = ?l @ newline # take (e - ?v) (drop ?v bs)"
    using assms(3) v by (simp add: take_Cons')
  also have "take (e - ?v) (drop ?v bs) = drop ?v (take e bs)" by (rule drop_take[symmetric])
  finally show ?thesis .
qed

lemma MapSection_loop_terminated:
  assumes "last bs = newline" "e \<le> length bs" "e = 0 \<or> bs ! (e - 1) = newline"
  shows "buf s = bs \<Longrightarrow> \<not> eofbit s \<Longrightarrow> \<not> failbit s \<Longrightarrow> gpos s \<le> e \<Longrightarrow>
         MapSection_loop f (int e) s out =
           out @ concat (map f (file_lines (drop (gpos s) (take e bs))))"
proof (induction "e - gpos s" arbitrary: s out rule: less_induct)
  case less
  show ?case
  proof (cases "gpos s = e")
    case True
    with less.prems show ?thesis
      by (simp add: MapSection_loop.simps[of f "int e" s] tellg_def file_lines_def)
  next
    case False
    with less.prems have lt: "gpos s < e" by simp
    let ?p = "gpos s"
    let ?l = "takeWhile (\<lambda>c. c \<noteq> newline) (drop ?p bs)"
    let ?v = "next_line_start bs ?p"
    let ?s = "s\<lparr>gpos := ?v\<rparr>"
    from lt assms(2) have pl: "?p < length bs" by simp
    have ve: "?v \<le> e"
    proof (rule ccontr)
      assume "\<not> ?v \<le> e"
      with lt have "?p \<le> e - 1" "Suc (e - 1) < ?v" by simp_all
      from no_newline_before_next_line_start[OF this] assms(3) lt show False by simp
    qed
    have gl: "getline s = ((True, ?l), ?s)"
      using getline_good[of s] less.prems pl assms(1) by simp
    have "MapSection_loop f (int e) s out = MapSection_loop f (int e) ?s (out @ f ?l)"
      using less.prems lt
      by (subst MapSection_loop.simps) (simp add: tellg_def gl)
    also have "\<dots> = (out @ f ?l) @ concat (map f (file_lines (drop (gpos ?s) (take e bs))))"
    proof (rule less.hyps)
      show "e - gpos ?s < e - gpos s"
        using lt next_line_start_bounds(1)[OF pl assms(1)] ve by simp
    qed (use less.prems ve in simp_all)
    also have "\<dots> = out @ concat (map f (file_lines (drop ?p (take e bs))))"
    proof -
      have "newline \<notin> set ?l" using set_takeWhileD[of newline "\<lambda>c. c \<noteq> newline"] by blast
      then have "file_lines (drop ?p (take e bs)) = ?l # file_lines (drop ?v (take e bs))"
        unfolding section_first_line[OF pl assms(1) ve] by (rule file_lines_line)
      then show ?thesis by simp
    qed
    finally show ?thesis .
  qed
qed


lemma section_boundaries_line_start:
  assumes "bs \<noteq> []" "last bs = newline" "0 < n" "j \<le> n"
  shows "section_boundaries bs n ! j \<le> length bs"
    "section_boundaries bs n ! j = 0 \<or> bs ! (section_boundaries bs n ! j - 1) = newline"
proof -
  consider "j = 0" | "j = n" | "0 < j" "j < n" using assms(4) by linarith
  then have "section_boundaries bs n ! j \<le> length bs \<and>
    (section_boundaries bs n ! j = 0 \<or> bs ! (section_boundaries bs n ! j - 1) = newline)"
  proof cases
    case 1
    then show ?thesis using assms(3) by (simp add: section_boundaries_nth)
  next
    case 2
    then show ?thesis using assms(1,2,3) by (simp add: section_boundaries_nth last_conv_nth)
  next
    case 3
    from section_boundaries_aligned(3,4)[OF assms(1,2,3) 3] show ?thesis by simp
  qed
  then show "section_boundaries bs n ! j \<le> length bs"
    "section_boundaries bs n ! j = 0 \<or> bs ! (section_boundaries bs n ! j - 1) = newline"
    by simp_all
qed

lemma concat_map_func: "concat (map map_func ls) = ls"
  by (induction ls) (simp_all add: map_func_def)

lemma mapper_output_terminated:
  assumes "bs \<noteq> []" "last bs = newline" "0 < n" "i < n"
  shows "MapSection_loop map_func (map int (section_boundaries bs n) ! Suc i)
           (seekg (map int (section_boundaries bs n) ! i)
              \<lparr>buf = bs, gpos = 0, eofbit = False, failbit = False\<rparr>) [] =
         file_lines (drop (section_boundaries bs n ! i) (take (section_boundaries bs n ! Suc i) bs))"
proof -
  let ?b = "section_boundaries bs n"
  have len: "length ?b = Suc n" using assms(3) by (simp add: section_boundaries_def)
  from assms(4) len have i: "i < length ?b" "Suc i < length ?b" by simp_all
  let ?s = "\<lparr>buf = bs, gpos = ?b ! i, eofbit = False, failbit = False\<rparr>"
  have sk: "seekg (int (?b ! i)) \<lparr>buf = bs, gpos = 0, eofbit = False, failbit = False\<rparr> = ?s"
    by (simp add: seekg_def)
  have le: "?b ! i \<le> ?b ! Suc i"
    using assms(4) by (intro section_boundaries_mono[OF assms(1,2,3)]) simp_all
  have si: "Suc i \<le> n" using assms(4) by simp
  note e = section_boundaries_line_start[OF assms(1,2,3) si]
  have "MapSection_loop map_func (int (?b ! Suc i)) ?s [] =
        [] @ concat (map map_func (file_lines (drop (gpos ?s) (take (?b ! Suc i) bs))))"
    by (rule MapSection_loop_terminated[OF assms(2) e]) (use le in simp_all)
  then have "MapSection_loop map_func (int (?b ! Suc i)) ?s [] =
        file_lines (drop (?b ! i) (take (?b ! Suc i) bs))"
    by (simp add: concat_map_func)
  then show ?thesis
    unfolding nth_map[OF i(1)] nth_map[OF i(2)] sk .
qed

lemma sections_cover_prefix:
  assumes "bs \<noteq> []" "last bs = newline" "0 < n" "j \<le> n"
  shows "concat (map (\<lambda>i. file_lines (drop (section_boundaries bs n ! i)
                                      (take (section_boundaries bs n ! (i + 1)) bs))) [0..<j]) =
         file_lines (take (section_boundaries bs n ! j) bs)"
  using assms(4)
proof (induction j)
  case 0
  then show ?case using assms(3) by (simp add: section_boundaries_nth file_lines_def)
next
  case (Suc j)
  let ?b = "section_boundaries bs n"
  from Suc.prems have j: "j \<le> n" by simp
  have le: "?b ! j \<le> ?b ! Suc j"
    using Suc.prems by (intro section_boundaries_mono[OF assms(1,2,3)]) simp_all
  note a = section_boundaries_line_start[OF assms(1,2,3) j]
  have al: "take (?b ! j) bs = [] \<or> last (take (?b ! j) bs) = newline"
  proof (cases "?b ! j = 0")
    case True
    then show ?thesis by simp
  next
    case False
    with a have "bs ! (?b ! j - 1) = newline" "?b ! j \<le> length bs" by simp_all
    with False assms(1) show ?thesis by (simp add: last_conv_nth min_def)
  qed
  have "take (?b ! Suc j) bs = take (?b ! j) (take (?b ! Suc j) bs) @ drop (?b ! j) (take (?b ! Suc j) bs)"
    by (simp only: append_take_drop_id)
  also have "take (?b ! j) (take (?b ! Suc j) bs) = take (?b ! j) bs"
    using le by (simp add: min_def)
  finally have sp: "take (?b ! Suc j) bs = take (?b ! j) bs @ drop (?b ! j) (take (?b ! Suc j) bs)" .
  have "file_lines (take (?b ! Suc j) bs) =
        file_lines (take (?b ! j) bs) @ file_lines (drop (?b ! j) (take (?b ! Suc j) bs))"
    by (subst sp) (rule file_lines_append[OF al])
  with Suc.IH[OF j] show ?case by simp
qed

text \<open>
  Coverage: the mapper outputs, section after section, are the lines of the file, each
  once and in order; their sizes add up to the number of lines.
\<close>

lemma coverage_terminated:
  assumes "files fs p = Some bs" "p \<noteq> []" "bs \<noteq> []" "last bs = newline" "0 < n"
    and "mset mappers = mset [0..<nat n]"
  shows "\<exists>map_results.
           mapping_phase fs p (map int (section_boundaries bs (nat n))) mappers
             (replicate (nat n) []) = Inr map_results \<and>
           concat map_results = file_lines bs \<and>
           sum_list (map length map_results) = length (file_lines bs)"
proof -
  let ?b = "section_boundaries bs (nat n)"
  let ?mr = "map (\<lambda>i. file_lines (drop (?b ! i) (take (?b ! (i + 1)) bs))) [0..<nat n]"
  have n0: "0 < nat n" using assms(5) by simp
  have "mapping_phase fs p (map int ?b) mappers (replicate (nat n) []) =
        Inr (map (\<lambda>i. MapSection_loop map_func (map int ?b ! (i + 1))
                         (seekg (map int ?b ! i) \<lparr>buf = bs, gpos = 0, eofbit = False, failbit = False\<rparr>) [])
               [0..<nat n])"
    by (rule mapping_phase_all[OF assms(1,2,6)])
  also have "map (\<lambda>i. MapSection_loop map_func (map int ?b ! (i + 1))
                         (seekg (map int ?b ! i) \<lparr>buf = bs, gpos = 0, eofbit = False, failbit = False\<rparr>) [])
               [0..<nat n] = ?mr"
    by (rule map_cong[OF refl]) (simp add: mapper_output_terminated[OF assms(3,4) n0])
  finally have m: "mapping_phase fs p (map int ?b) mappers (replicate (nat n) []) = Inr ?mr" .
  have "concat ?mr = file_lines (take (?b ! nat n) bs)"
    using sections_cover_prefix[OF assms(3,4) n0 order_refl] by simp
  then have c: "concat ?mr = file_lines bs"
    using n0 by (simp add: section_boundaries_nth)
  have "sum_list (map length ?mr) = length (concat ?mr)"
    by (simp only: length_concat)
  with c have l: "sum_list (map length ?mr) = length (file_lines bs)" by simp
  from m c l show ?thesis by blast
qed


subsection \<open>The output files and the round trip\<close>

lemma digits_value_to_string_nat: "digits_value (to_string_nat n) = n"
proof (induction n rule: to_string_nat.induct)
  case (1 n)
  show ?case
  proof (cases "n < 10")
    case True
    then show ?thesis
      by (subst to_string_nat.simps) (simp add: digits_value_def)
  next
    case False
    have "n mod 10 < 10" by simp
    then have d: "of_char (char_of (48 + n mod 10)) = 48 + n mod 10"
      by simp
    from False have "digits_value (to_string_nat n) =
          digits_value (to_string_nat (n div 10)) * 10 + (of_char (char_of (48 + n mod 10)) - 48)"
      by (subst to_string_nat.simps) (simp add: digits_value_def)
    with 1[OF False] d show ?thesis by simp
  qed
qed

lemma output_file_name_inj:
  "output_file_name (int i) = output_file_name (int j) \<Longrightarrow> i = j"
proof -
  assume "output_file_name (int i) = output_file_name (int j)"
  then have "to_string_nat i = to_string_nat j"
    by (simp add: output_file_name_def to_string_def)
  then have "digits_value (to_string_nat i) = digits_value (to_string_nat j)" by simp
  then show "i = j" by (simp only: digits_value_to_string_nat)
qed

lemma reducing_phase_frame:
  "reducing_phase fs buckets sched = Inr fs' \<Longrightarrow>
   \<forall>i \<in> set sched. output_file_name (int i) \<noteq> x \<Longrightarrow> files fs' x = files fs x"
proof (induction sched arbitrary: fs)
  case Nil
  then show ?case by simp
next
  case (Cons j sched)
  from Cons.prems(1) obtain fs1 where
    r: "ReduceContainer fs (buckets ! j) (Some reduce_func) (output_file_name (int j)) = (None, fs1)"
    and rest: "reducing_phase fs1 buckets sched = Inr fs'"
    by (auto split: prod.splits option.splits sum.splits)
  from r Cons.prems(2) have "files fs1 x = files fs x"
    by (auto simp: ReduceContainer_def Let_def split: if_splits)
  with Cons.IH[OF rest] Cons.prems(2) show ?case by simp
qed

lemma reducing_phase_files:
  "reducing_phase fs buckets sched = Inr fs' \<Longrightarrow> i \<in> set sched \<Longrightarrow>
   files fs' (output_file_name (int i)) = Some (write_lines (buckets ! i))"
proof (induction sched arbitrary: fs)
  case Nil
  then show ?case by simp
next
  case (Cons j sched)
  from Cons.prems(1) obtain fs1 where
    r: "ReduceContainer fs (buckets ! j) (Some reduce_func) (output_file_name (int j)) = (None, fs1)"
    and rest: "reducing_phase fs1 buckets sched = Inr fs'"
    by (auto split: prod.splits option.splits sum.splits)
  show ?case
  proof (cases "i \<in> set sched")
    case True
    from Cons.IH[OF rest True] show ?thesis .
  next
    case False
    with Cons.prems(2) have ij: "i = j" by simp
    from False have "\<forall>k \<in> set sched. output_file_name (int k) \<noteq> output_file_name (int i)"
      using output_file_name_inj by blast
    from reducing_phase_frame[OF rest this]
    have "files fs' (output_file_name (int i)) = files fs1 (output_file_name (int i))" .
    also from r ij have "\<dots> = Some (write_lines (buckets ! i))"
      by (auto simp: ReduceContainer_def Let_def reduce_func_def split: if_splits)
    finally show ?thesis .
  qed
qed

lemma lines_acc_no_newline:
  "newline \<notin> set cur \<Longrightarrow> \<forall>l \<in> set (lines_acc cur xs). newline \<notin> set l"
proof (induction xs arbitrary: cur)
  case Nil
  then show ?case by simp
next
  case (Cons c cs)
  show ?case
  proof (cases "c = newline")
    case True
    with Cons.IH[of "[]"] Cons.prems show ?thesis by simp
  next
    case False
    with Cons.prems have "newline \<notin> set (cur @ [c])" by simp
    from Cons.IH[OF this] False show ?thesis by simp
  qed
qed

lemma file_lines_no_newline: "l \<in> set (file_lines bs) \<Longrightarrow> newline \<notin> set l"
  using lines_acc_no_newline[of "[]" bs] by (simp add: file_lines_def)

lemma file_lines_write_lines:
  "\<forall>item \<in> set items. newline \<notin> set item \<Longrightarrow> file_lines (write_lines items) = items"
proof (induction items)
  case Nil
  then show ?case by (simp add: write_lines_def file_lines_def)
next
  case (Cons a items)
  then have "file_lines (a @ newline # write_lines items) = a # file_lines (write_lines items)"
    by (intro file_lines_line) simp
  with Cons show ?case by (simp add: write_lines_def)
qed

lemma sum_list_mset_nth:
  "sum_list (map (\<lambda>i. mset (bs ! i)) [0..<length bs]) = mset (concat bs)"
proof -
  have "map (\<lambda>i. mset (bs ! i)) [0..<length bs] = map mset bs"
    by (rule nth_equalityI) simp_all
  then show ?thesis by (simp add: mset_concat)
qed


text \<open>
  Round trip: after a successful run (\<^verbatim>\<open>main\<close> returned and wrote nothing to standard
  error) the lines of the output files \<open>output_0.txt\<close>, \<dots> together are the lines of
  the input file, as multisets.
\<close>

lemma round_trip_terminated:
  assumes "length argv = 4" "files fs (argv ! 1) = Some bs" "last bs = newline"
    and "mset mappers = mset [0..<nat (atoi (argv ! 2))]"
    and "mset reducers = mset [0..<nat (atoi (argv ! 3))]"
    and "main fs argv mappers reducers = Returned c" "cerr c = []"
  shows "sum_list (map (\<lambda>i. mset (file_lines (the (files (disk c) (output_file_name (int i))))))
           [0..<nat (atoi (argv ! 3))]) = mset (file_lines bs)"
proof -
  let ?p = "argv ! 1" and ?n = "atoi (argv ! 2)" and ?r = "atoi (argv ! 3)"
  obtain ps where sp: "SplitFileIntoSections fs ?p ?n = Inr ps"
  proof (cases "SplitFileIntoSections fs ?p ?n")
    case (Inl ex)
    with assms(1,6,7) show ?thesis by (auto simp: main_def caught_def)
  next
    case (Inr ps)
    then show ?thesis by (rule that)
  qed
  from SplitFileIntoSections_InrD[OF sp] assms(2)
  have p: "?p \<noteq> []" and n: "0 < ?n" and nm: "?n < INT_MAX" and ne: "bs \<noteq> []" by auto
  from sp SplitFileIntoSections_terminated[OF assms(2) p ne assms(3) n nm]
  have ps: "ps = map int (section_boundaries bs (nat ?n))" by simp
  from coverage_terminated[OF assms(2) p ne assms(3) n assms(4)] obtain mr where
    mp: "mapping_phase fs ?p ps mappers (replicate (nat ?n) []) = Inr mr"
    and cover: "concat mr = file_lines bs"
    unfolding ps by blast
  obtain buckets where sh: "Shuffle mr ?r = Inr buckets"
  proof (cases "Shuffle mr ?r")
    case (Inl ex)
    with assms(1,6,7) sp mp show ?thesis by (auto simp: main_def caught_def)
  next
    case (Inr buckets)
    then show ?thesis by (rule that)
  qed
  from assms(6) have rp: "reducing_phase fs buckets reducers = Inr (disk c)"
    unfolding main_phases[OF assms(1) sp mp sh] by (auto split: sum.splits)
  from sh have "mr \<noteq> []" "0 < ?r" by (auto simp: Shuffle_def split: if_splits)
  from Shuffle_eq_spec[OF this] sh have len: "length buckets = nat ?r"
    by (auto simp: shuffle_spec_def)
  note ms = Shuffle_mset[OF sh]
  have rd: "set reducers = {..<nat ?r}"
    by (rule schedule_permutation(2)[OF assms(5)])
  have "map (\<lambda>i. mset (file_lines (the (files (disk c) (output_file_name (int i))))))
          [0..<nat ?r] = map (\<lambda>i. mset (buckets ! i)) [0..<length buckets]"
    unfolding len
  proof (rule map_cong[OF refl])
    fix i assume "i \<in> set [0..<nat ?r]"
    then have i: "i < nat ?r" by simp
    with rd have "i \<in> set reducers" by simp
    from reducing_phase_files[OF rp this]
    have f: "files (disk c) (output_file_name (int i)) = Some (write_lines (buckets ! i))" .
    have "\<forall>item \<in> set (buckets ! i). newline \<notin> set item"
    proof
      fix item assume "item \<in> set (buckets ! i)"
      with i len have "item \<in> set (concat buckets)" by auto
      then have "item \<in> set (concat mr)" by (metis ms set_mset_mset)
      then show "newline \<notin> set item"
        unfolding cover by (rule file_lines_no_newline)
    qed
    from file_lines_write_lines[OF this] f
    show "mset (file_lines (the (files (disk c) (output_file_name (int i))))) = mset (buckets ! i)"
      by simp
  qed
  then have "sum_list (map (\<lambda>i. mset (file_lines (the (files (disk c) (output_file_name (int i))))))
           [0..<nat ?r]) = mset (concat buckets)"
    by (simp only: sum_list_mset_nth)
  with ms cover show ?thesis by simp
qed


section \<open>A last line without a newline\<close>

text \<open>
  When \<^verbatim>\<open>getline\<close> in \<^verbatim>\<open>SplitFileIntoSections\<close> runs into the end of the file, eofbit is
  set and \<^verbatim>\<open>tellg\<close> answers \<open>-1\<close>; the failbit this sets stays for the later iterations.
  The value \<open>-1\<close> is stored as a section boundary. The section that ends there reads
  nothing, and so does the section that starts there (its \<^verbatim>\<open>seekg(-1)\<close> fails).
\<close>

text \<open>
  Claim C5, at the file \<open>ab\<close> (no newline) and two sections: the boundaries are 0, -1, 2,
  which are not non-decreasing, and the inner one follows no line terminator.
\<close>

theorem SplitFileIntoSections_unterminated:
  "SplitFileIntoSections (single_file ''f'' ''ab'') ''f'' 2 = Inr [0, - 1, 2] \<and>
   \<not> sorted [0, - 1, 2 :: int]"
proof -
  have "SplitFileIntoSections (single_file ''f'' ''ab'') ''f'' 2 = Inr [0, - 1, 2]"
    by code_simp
  then show ?thesis by simp
qed

text \<open>
  Claim C4, at the file \<open>a\<newline>b\<close> of two lines and three mappers: the mapper outputs
  hold one item, the line \<open>b\<close> is read by no mapper.
\<close>

theorem MapSection_drops_last_line:
  "SplitFileIntoSections (single_file ''f'' ''a\<newline>b'') ''f'' 3 = Inr [0, 2, - 1, 3] \<and>
   mapping_phase (single_file ''f'' ''a\<newline>b'') ''f'' [0, 2, - 1, 3] [0, 1, 2]
     (replicate (nat 3) []) = Inr [[''a''], [], []] \<and>
   sum_list (map length [[''a''], [], []]) = 1 \<and>
   file_lines ''a\<newline>b'' = [''a'', ''b'']"
proof -
  have 1: "SplitFileIntoSections (single_file ''f'' ''a\<newline>b'') ''f'' 3 = Inr [0, 2, - 1, 3]"
    by code_simp
  have 2: "mapping_phase (single_file ''f'' ''a\<newline>b'') ''f'' [0, 2, - 1, 3] [0, 1, 2]
     (replicate (nat 3) []) = Inr [[''a''], [], []]"
    by code_simp
  have 3: "file_lines ''a\<newline>b'' = [''a'', ''b'']"
    by code_simp
  from 1 2 3 show ?thesis by simp
qed

text \<open>
  Claim C3, at the same file with three mappers and one reducer: the run succeeds (it
  returns 0 with nothing on standard error) and the only output file holds the line
  \<open>a\<close>, while the input has the lines \<open>a\<close> and \<open>b\<close>.
\<close>

theorem main_loses_last_line:
  "main (single_file ''f'' ''a\<newline>b'') [''mapreduce'', ''f'', ''3'', ''1''] [0, 1, 2] [0] =
     Returned \<lparr>exit_status = 0, cout = [], cerr = [], spawned = 4,
               disk = (single_file ''f'' ''a\<newline>b'')
                 \<lparr>files := (files (single_file ''f'' ''a\<newline>b''))
                              (''output_0.txt'' \<mapsto> ''a\<newline>'')\<rparr>\<rparr> \<and>
   file_lines ''a\<newline>'' = [''a''] \<and>
   file_lines ''a\<newline>b'' = [''a'', ''b'']"
proof -
  let ?fs = "single_file ''f'' ''a\<newline>b''"
  let ?argv = "[''mapreduce'', ''f'', ''3'', ''1'']"
  have l: "length ?argv = 4" by simp
  have s: "SplitFileIntoSections ?fs (?argv ! 1) (atoi (?argv ! 2)) = Inr [0, 2, - 1, 3]"
    by code_simp
  have m: "mapping_phase ?fs (?argv ! 1) [0, 2, - 1, 3] [0, 1, 2]
             (replicate (nat (atoi (?argv ! 2))) []) = Inr [[''a''], [], []]"
    by code_simp
  have h: "Shuffle [[''a''], [], []] (atoi (?argv ! 3)) = Inr [[''a'']]"
    by code_simp
  have n: "output_file_name (int 0) = ''output_0.txt''"
    by code_simp
  have w: "write_lines (reduce_func [''a'']) = ''a\<newline>''"
    by code_simp
  have a: "nat (atoi (?argv ! 2)) + nat (atoi (?argv ! 3)) = 4"
    by code_simp
  have r: "reducing_phase ?fs [[''a'']] [0] =
             Inr (?fs\<lparr>files := (files ?fs)(''output_0.txt'' \<mapsto> ''a\<newline>'')\<rparr>)"
    using n w by (simp add: ReduceContainer_def single_file_def)
  have 1: "file_lines ''a\<newline>'' = [''a'']" by code_simp
  have 2: "file_lines ''a\<newline>b'' = [''a'', ''b'']" by code_simp
  show ?thesis
    unfolding main_phases[OF l s m h] r a using 1 2 by simp
qed


end
